theory Spec2Isabelle
  imports Complex_Main "HOL-Library.Multiset"
begin

section \<open>Numbers\<close>

text \<open>
  JavaScript numbers are IEEE 754 doubles. Sizes, offsets and ids are integers, so a number
  that holds one is an \<open>int\<close> here, and every sum and difference the source computes is
  rounded to the nearest double, ties to the even significand: an integer of magnitude up
  to \<open>2 ^ 53\<close> is a double itself, a larger one keeps 53 significant bits. A result of
  magnitude \<open>2 ^ 1024\<close> or more is \<^verbatim>\<open>Infinity\<close> in the source and is outside this model.
\<close>

text \<open>The number of binary digits of a positive integer.\<close>

function bit_len :: "int \<Rightarrow> nat" where
  "bit_len n = (if n \<le> 0 then 0 else Suc (bit_len (n div 2)))"
  by pat_completeness auto
termination
  by (relation "measure nat") auto

declare bit_len.simps [simp del]

definition fl :: "int \<Rightarrow> int" where
  "fl x =
     (if \<bar>x\<bar> \<le> 2 ^ 53 then x
      else (let k = bit_len \<bar>x\<bar> - 53;
                q = \<bar>x\<bar> div 2 ^ k;
                r = \<bar>x\<bar> mod 2 ^ k;
                m = (if 2 * r > 2 ^ k \<or> (2 * r = 2 ^ k \<and> odd q) then q + 1 else q)
            in sgn x * m * 2 ^ k))"

text \<open>The operators \<^verbatim>\<open>+\<close> and \<^verbatim>\<open>-\<close> on numbers that hold integers.\<close>

definition num_add :: "int \<Rightarrow> int \<Rightarrow> int" where
  "num_add a b = fl (a + b)"

definition num_sub :: "int \<Rightarrow> int \<Rightarrow> int" where
  "num_sub a b = fl (a - b)"

text \<open>
  A quotient need not be an integer: the doubles are rational numbers, and \<open>fl_rat\<close> rounds
  a rational to the nearest double. The double has 53 significant bits from the leading bit
  of the number at \<open>2 ^ e\<close>, or bits down to \<open>2 ^ - 1074\<close> when the number is smaller than
  \<open>2 ^ - 1022\<close>.
\<close>

definition pow2 :: "int \<Rightarrow> rat" where
  "pow2 e = (if 0 \<le> e then 2 ^ nat e else 1 / 2 ^ nat (- e))"

definition fl_rat :: "rat \<Rightarrow> rat" where
  "fl_rat x =
     (if x = 0 then 0
      else (let a = \<bar>x\<bar>;
                d = int (bit_len (fst (quotient_of a))) - int (bit_len (snd (quotient_of a)));
                e = (if pow2 d \<le> a then d else d - 1);
                u = pow2 (max e (- 1022) - 52);
                n = \<lfloor>a / u\<rfloor>;
                f = a / u - of_int n;
                m = (if f > 1 / 2 \<or> (f = 1 / 2 \<and> odd n) then n + 1 else n)
            in sgn x * of_int m * u))"

text \<open>The operators \<^verbatim>\<open>/\<close> (on integers, the divisor not 0) and \<^verbatim>\<open>*\<close>.\<close>

definition num_div :: "int \<Rightarrow> int \<Rightarrow> rat" where
  "num_div a b = fl_rat (of_int a / of_int b)"

definition num_mul :: "rat \<Rightarrow> rat \<Rightarrow> rat" where
  "num_mul a b = fl_rat (a * b)"

section \<open>Data model of the memory allocator (demos/memory-allocator/allocator.js)\<close>

text \<open>
  A block is the object literal \<^verbatim>\<open>{ start, size, allocated, id }\<close>; the field \<^verbatim>\<open>id\<close> holds
  \<^verbatim>\<open>null\<close> (here \<open>None\<close>) on a free block. The fields \<^verbatim>\<open>size\<close> and \<^verbatim>\<open>id\<close> carry a suffix
  because the plain names are constants of HOL.
\<close>

record block =
  start :: int
  size_b :: int
  allocated :: bool
  id_b :: "int option"

record allocation =
  id_a :: int
  size_a :: int
  freed :: bool
  timestamp :: int

record allocator =
  totalSize :: int
  blocks :: "block list"
  allocations :: "allocation list"
  nextId :: int
  strategy :: string
  lastSearchIndex :: nat

text \<open>Reading a property of \<^verbatim>\<open>undefined\<close> throws a TypeError; a call with more
  arguments than the engine accepts throws a RangeError.\<close>

datatype error = TypeError | RangeError

definition constructor :: "int \<Rightarrow> allocator" where
  "constructor n =
     \<lparr> totalSize = n,
       blocks = [\<lparr> start = 0, size_b = n, allocated = False, id_b = None \<rparr>],
       allocations = [],
       nextId = 1,
       strategy = ''first-fit'',
       lastSearchIndex = 0 \<rparr>"

definition setStrategy :: "allocator \<Rightarrow> string \<Rightarrow> allocator" where
  "setStrategy st s = st\<lparr> strategy := s, lastSearchIndex := 0 \<rparr>"

section \<open>Placement strategies\<close>

text \<open>
  \<^verbatim>\<open>Array.prototype.findIndex\<close>: the index of the first element satisfying the predicate;
  the result \<^verbatim>\<open>-1\<close> of the source is \<open>None\<close> here, in all four searches.
\<close>

fun findIndex :: "('a \<Rightarrow> bool) \<Rightarrow> 'a list \<Rightarrow> nat option" where
  "findIndex P [] = None"
| "findIndex P (x # xs) = (if P x then Some 0 else map_option Suc (findIndex P xs))"

definition firstFit :: "block list \<Rightarrow> int \<Rightarrow> nat option" where
  "firstFit bs sz = findIndex (\<lambda>b. \<not> allocated b \<and> size_b b \<ge> sz) bs"

text \<open>The accumulator \<^verbatim>\<open>bestSize\<close> starts at \<^verbatim>\<open>Infinity\<close>, which is \<open>None\<close> here.\<close>

function bestFit_loop :: "block list \<Rightarrow> int \<Rightarrow> nat \<Rightarrow> nat option \<Rightarrow> int option \<Rightarrow> nat option" where
  "bestFit_loop bs sz i bestIndex bestSize =
     (if i < length bs then
        (if \<not> allocated (bs ! i) \<and> size_b (bs ! i) \<ge> sz
            \<and> (case bestSize of None \<Rightarrow> True | Some s \<Rightarrow> size_b (bs ! i) < s)
         then bestFit_loop bs sz (i + 1) (Some i) (Some (size_b (bs ! i)))
         else bestFit_loop bs sz (i + 1) bestIndex bestSize)
      else bestIndex)"
  by pat_completeness auto
termination
  by (relation "measure (\<lambda>(bs, sz, i, bestIndex, bestSize). length bs - i)") auto

declare bestFit_loop.simps [simp del]

definition bestFit :: "block list \<Rightarrow> int \<Rightarrow> nat option" where
  "bestFit bs sz = bestFit_loop bs sz 0 None None"

function worstFit_loop :: "block list \<Rightarrow> int \<Rightarrow> nat \<Rightarrow> nat option \<Rightarrow> int \<Rightarrow> nat option" where
  "worstFit_loop bs sz i worstIndex worstSize =
     (if i < length bs then
        (if \<not> allocated (bs ! i) \<and> size_b (bs ! i) \<ge> sz \<and> size_b (bs ! i) > worstSize
         then worstFit_loop bs sz (i + 1) (Some i) (size_b (bs ! i))
         else worstFit_loop bs sz (i + 1) worstIndex worstSize)
      else worstIndex)"
  by pat_completeness auto
termination
  by (relation "measure (\<lambda>(bs, sz, i, worstIndex, worstSize). length bs - i)") auto

declare worstFit_loop.simps [simp del]

definition worstFit :: "block list \<Rightarrow> int \<Rightarrow> nat option" where
  "worstFit bs sz = worstFit_loop bs sz 0 None (- 1)"

text \<open>
  The do-while loop of \<^verbatim>\<open>nextFit\<close>. Nothing in the loop bounds the number of rounds, so
  the loop is a partial function: \<open>None\<close> is a scan that never returns. The read
  \<^verbatim>\<open>this.blocks[currentIndex]\<close> beyond the end of the array gives \<^verbatim>\<open>undefined\<close>, and
  \<^verbatim>\<open>block.allocated\<close> then throws.
\<close>

partial_function (option) nextFit_loop ::
  "block list \<Rightarrow> int \<Rightarrow> nat \<Rightarrow> nat \<Rightarrow> (error + nat option) option" where
  "nextFit_loop bs sz startIndex currentIndex =
     (if currentIndex < length bs then
        (if \<not> allocated (bs ! currentIndex) \<and> size_b (bs ! currentIndex) \<ge> sz
         then Some (Inr (Some currentIndex))
         else if (currentIndex + 1) mod length bs \<noteq> startIndex
              then nextFit_loop bs sz startIndex ((currentIndex + 1) mod length bs)
              else Some (Inr None))
      else Some (Inl TypeError))"

declare nextFit_loop.simps [code]

definition nextFit :: "allocator \<Rightarrow> int \<Rightarrow> (error + nat option) option" where
  "nextFit st sz = nextFit_loop (blocks st) sz (lastSearchIndex st) (lastSearchIndex st)"

text \<open>The \<^verbatim>\<open>switch\<close> of \<^verbatim>\<open>allocate\<close>; it has no default case, so any other strategy
  string leaves \<^verbatim>\<open>blockIndex\<close> at \<^verbatim>\<open>-1\<close>.\<close>

definition search :: "allocator \<Rightarrow> int \<Rightarrow> (error + nat option) option" where
  "search st sz =
     (if strategy st = ''first-fit'' then Some (Inr (firstFit (blocks st) sz))
      else if strategy st = ''best-fit'' then Some (Inr (bestFit (blocks st) sz))
      else if strategy st = ''worst-fit'' then Some (Inr (worstFit (blocks st) sz))
      else if strategy st = ''next-fit'' then nextFit st sz
      else Some (Inr None))"

section \<open>Allocation\<close>

text \<open>
  \<^verbatim>\<open>allocate(size)\<close>, with the value of \<^verbatim>\<open>Date.now()\<close> as the argument \<open>now\<close>. The result
  is \<open>None\<close> when the search does not return, \<open>Inl\<close> when it throws (nothing has been
  written then), and otherwise the returned value (\<open>None\<close> for \<^verbatim>\<open>null\<close>) with the state.
  The read \<^verbatim>\<open>this.blocks[blockIndex]\<close> has its own out-of-range branch, as in the scan of
  next-fit; the searches never return such an index.  \<^verbatim>\<open>splice(blockIndex, 0, newBlock)\<close>
  puts the new block in front of the shrunken one.
\<close>

definition allocate :: "allocator \<Rightarrow> int \<Rightarrow> int \<Rightarrow> (error + int option \<times> allocator) option" where
  "allocate st sz now =
     (case search st sz of
        None \<Rightarrow> None
      | Some (Inl e) \<Rightarrow> Some (Inl e)
      | Some (Inr None) \<Rightarrow> Some (Inr (None, st))
      | Some (Inr (Some blockIndex)) \<Rightarrow>
          (if blockIndex < length (blocks st) then
             (let block = blocks st ! blockIndex;
                  allocationId = nextId st;
                  bs' = (if size_b block = sz
                         then (blocks st)[blockIndex := block\<lparr> allocated := True, id_b := Some allocationId \<rparr>]
                         else (let newBlock = \<lparr> start = start block, size_b = sz,
                                                allocated = True, id_b = Some allocationId \<rparr>;
                                   bs1 = (blocks st)[blockIndex :=
                                           block\<lparr> start := num_add (start block) sz,
                                                  size_b := num_sub (size_b block) sz \<rparr>]
                               in take blockIndex bs1 @ newBlock # drop blockIndex bs1))
              in Some (Inr (Some allocationId,
                   st\<lparr> blocks := bs',
                       allocations := allocations st @
                          [\<lparr> id_a = allocationId, size_a = sz, freed = False, timestamp = now \<rparr>],
                       nextId := num_add allocationId 1,
                       lastSearchIndex := blockIndex \<rparr>)))
           else Some (Inl TypeError)))"

section \<open>Release and coalescing\<close>

text \<open>
  The loop of \<^verbatim>\<open>mergeAdjacentFreeBlocks\<close> on the index \<open>i\<close>: after a merge the source
  decrements \<open>i\<close> and the loop header increments it again, so the next round has the same
  \<open>i\<close>. \<^verbatim>\<open>splice(i + 1, 1)\<close> removes the right block.
\<close>

function merge_loop :: "nat \<Rightarrow> block list \<Rightarrow> block list" where
  "merge_loop i bs =
     (if i + 1 < length bs then
        (if \<not> allocated (bs ! i) \<and> \<not> allocated (bs ! (i + 1))
         then merge_loop i
                (take (i + 1)
                   (bs[i := (bs ! i)\<lparr> size_b := num_add (size_b (bs ! i)) (size_b (bs ! (i + 1))) \<rparr>])
                 @ drop (i + 2) bs)
         else merge_loop (i + 1) bs)
      else bs)"
  by pat_completeness auto
termination
  by (relation "measure (\<lambda>(i, bs). 2 * length bs - i)") auto

declare merge_loop.simps [simp del]

definition mergeAdjacentFreeBlocks :: "block list \<Rightarrow> block list" where
  "mergeAdjacentFreeBlocks bs = merge_loop 0 bs"

text \<open>\<^verbatim>\<open>this.allocations.find(a => a.id === allocationId)\<close> followed by the write to the
  record found: the first record with that id is marked.\<close>

fun mark_freed :: "int option \<Rightarrow> allocation list \<Rightarrow> allocation list" where
  "mark_freed aid [] = []"
| "mark_freed aid (a # as) =
     (if Some (id_a a) = aid then a\<lparr> freed := True \<rparr> # as else a # mark_freed aid as)"

text \<open>\<^verbatim>\<open>free(allocationId)\<close>; the argument is an integer or \<^verbatim>\<open>null\<close>.\<close>

definition free :: "allocator \<Rightarrow> int option \<Rightarrow> bool \<times> allocator" where
  "free st allocationId =
     (case findIndex (\<lambda>b. id_b b = allocationId) (blocks st) of
        None \<Rightarrow> (False, st)
      | Some blockIndex \<Rightarrow>
          (True,
           st\<lparr> blocks := mergeAdjacentFreeBlocks
                  ((blocks st)[blockIndex := (blocks st ! blockIndex)\<lparr> allocated := False, id_b := None \<rparr>]),
               allocations := mark_freed allocationId (allocations st) \<rparr>))"

section \<open>Defragmentation\<close>

text \<open>
  The comparator handed to \<^verbatim>\<open>Array.prototype.sort\<close>, and the sort itself as a stable
  insertion sort: the language requires the sort to be stable, and the comparator is a
  consistent order (allocated first, then by start), so every stable sort yields this list.
\<close>

definition cmp :: "block \<Rightarrow> block \<Rightarrow> int" where
  "cmp a b =
     (if allocated a \<and> \<not> allocated b then - 1
      else if \<not> allocated a \<and> allocated b then 1
      else num_sub (start a) (start b))"

fun insort_cmp :: "block \<Rightarrow> block list \<Rightarrow> block list" where
  "insort_cmp x [] = [x]"
| "insort_cmp x (y # ys) = (if cmp x y \<le> 0 then x # y # ys else y # insort_cmp x ys)"

definition sort_cmp :: "block list \<Rightarrow> block list" where
  "sort_cmp bs = foldr insort_cmp bs []"

text \<open>The loop that recomputes the start positions.\<close>

fun relayout :: "int \<Rightarrow> block list \<Rightarrow> block list" where
  "relayout currentStart [] = []"
| "relayout currentStart (b # bs) =
     b\<lparr> start := currentStart \<rparr> # relayout (num_add currentStart (size_b b)) bs"

definition defragment :: "allocator \<Rightarrow> allocator" where
  "defragment st =
     st\<lparr> blocks := mergeAdjacentFreeBlocks (relayout 0 (sort_cmp (blocks st))) \<rparr>"

section \<open>Statistics and reset\<close>

text \<open>
  \<^verbatim>\<open>getStats()\<close>. The sums are \<^verbatim>\<open>reduce\<close> with \<^verbatim>\<open>+\<close>. The call
  \<^verbatim>\<open>Math.max(...freeBlocks.map(b => b.size))\<close> passes one argument for each free block and
  throws a RangeError when they are more than the engine accepts; that number depends on
  the engine and is the argument \<open>argLimit\<close>. The field \<^verbatim>\<open>fragmentation\<close> is a double that
  need not be an integer.
\<close>

record stats =
  totalSize_s :: int
  allocated_s :: int
  free_s :: int
  fragmentation :: rat
  allocations_s :: nat
  freeBlocks :: nat

definition sum_sizes :: "block list \<Rightarrow> int" where
  "sum_sizes bs = fold (\<lambda>b sum. num_add sum (size_b b)) bs 0"

definition getStats :: "allocator \<Rightarrow> nat \<Rightarrow> error + stats" where
  "getStats st argLimit =
     (let totalAllocated = sum_sizes (filter (\<lambda>b. allocated b) (blocks st));
          totalFree = sum_sizes (filter (\<lambda>b. \<not> allocated b) (blocks st));
          freeBlocks = filter (\<lambda>b. \<not> allocated b) (blocks st)
      in if length freeBlocks > 0 \<and> length freeBlocks > argLimit then Inl RangeError
         else
           (let largestFreeBlock = (case map size_b freeBlocks of [] \<Rightarrow> 0 | x # xs \<Rightarrow> fold max xs x);
                fragmentation = (if totalFree > 0
                                 then num_mul (num_div (num_sub totalFree largestFreeBlock) totalFree) 100
                                 else 0)
            in Inr \<lparr> totalSize_s = totalSize st,
                     allocated_s = totalAllocated,
                     free_s = totalFree,
                     fragmentation = fragmentation,
                     allocations_s = length (filter (\<lambda>a. \<not> freed a) (allocations st)),
                     freeBlocks = length freeBlocks \<rparr>))"

text \<open>\<^verbatim>\<open>reset(newSize)\<close>: \<^verbatim>\<open>newSize || this.totalSize\<close> takes the old size when the argument
  is missing (\<open>None\<close>) or 0.\<close>

definition reset :: "allocator \<Rightarrow> int option \<Rightarrow> allocator" where
  "reset st newSize =
     (let n = (case newSize of None \<Rightarrow> totalSize st
                             | Some k \<Rightarrow> if k \<noteq> 0 then k else totalSize st)
      in st\<lparr> totalSize := n,
             blocks := [\<lparr> start = 0, size_b = n, allocated = False, id_b = None \<rparr>],
             allocations := [],
             nextId := 1,
             lastSearchIndex := 0 \<rparr>)"

section \<open>Sequences of calls\<close>

text \<open>A call with what it takes from outside: \<open>Allocate\<close> the size and the value of
  \<^verbatim>\<open>Date.now()\<close>, \<open>GetStats\<close> the number of arguments the engine accepts.\<close>

datatype call =
    Allocate int int
  | Free "int option"
  | Defragment
  | GetStats nat
  | Reset "int option"
  | SetStrategy string

datatype outcome =
    Threw error
  | AllocateReturned "int option"
  | FreeReturned bool
  | StatsReturned stats
  | Returned

text \<open>One call on the allocator object. A call that throws has written nothing, so the
  object is as before. \<open>None\<close> is a call that does not return.\<close>

fun step :: "allocator \<Rightarrow> call \<Rightarrow> (outcome \<times> allocator) option" where
  "step st (Allocate sz now) =
     (case allocate st sz now of
        None \<Rightarrow> None
      | Some (Inl e) \<Rightarrow> Some (Threw e, st)
      | Some (Inr (r, st')) \<Rightarrow> Some (AllocateReturned r, st'))"
| "step st (Free aid) = (case free st aid of (r, st') \<Rightarrow> Some (FreeReturned r, st'))"
| "step st Defragment = Some (Returned, defragment st)"
| "step st (GetStats argLimit) =
     (case getStats st argLimit of
        Inl e \<Rightarrow> Some (Threw e, st)
      | Inr s \<Rightarrow> Some (StatsReturned s, st))"
| "step st (Reset newSize) = Some (Returned, reset st newSize)"
| "step st (SetStrategy s) = Some (Returned, setStrategy st s)"

fun run :: "allocator \<Rightarrow> call list \<Rightarrow> allocator option" where
  "run st [] = Some st"
| "run st (c # cs) = (case step st c of None \<Rightarrow> None | Some (r, st') \<Rightarrow> run st' cs)"

section \<open>Ghost definitions used to state the properties\<close>

text \<open>
  The scan of \<^verbatim>\<open>nextFit\<close> once more, with the list of the indices whose block the loop
  has examined as a ghost result. It adds nothing to the loop; it only records the reads.
\<close>

partial_function (option) nextFit_visits ::
  "block list \<Rightarrow> int \<Rightarrow> nat \<Rightarrow> nat \<Rightarrow> nat list \<Rightarrow> nat list option" where
  "nextFit_visits bs sz startIndex currentIndex seen =
     (if currentIndex < length bs then
        (if \<not> allocated (bs ! currentIndex) \<and> size_b (bs ! currentIndex) \<ge> sz
         then Some (seen @ [currentIndex])
         else if (currentIndex + 1) mod length bs \<noteq> startIndex
              then nextFit_visits bs sz startIndex ((currentIndex + 1) mod length bs)
                     (seen @ [currentIndex])
              else Some (seen @ [currentIndex]))
      else Some seen)"

declare nextFit_visits.simps [code]

text \<open>The elements of a list up to and including the first one that satisfies \<open>P\<close>.\<close>

fun upto_first :: "('a \<Rightarrow> bool) \<Rightarrow> 'a list \<Rightarrow> 'a list" where
  "upto_first P [] = []"
| "upto_first P (x # xs) = (if P x then [x] else x # upto_first P xs)"

text \<open>A block that can serve a request of \<open>sz\<close>: free and large enough.\<close>

definition eligible :: "int \<Rightarrow> block \<Rightarrow> bool" where
  "eligible sz b \<longleftrightarrow> \<not> allocated b \<and> sz \<le> size_b b"

text \<open>The indices of a list of length \<open>n\<close> in circular order from \<open>c\<close>.\<close>

definition circular :: "nat \<Rightarrow> nat \<Rightarrow> nat list" where
  "circular n c = [c..<n] @ [0..<c]"

text \<open>Blocks laid out one after the other from the offset \<open>s\<close>.\<close>

fun contiguous_from :: "int \<Rightarrow> block list \<Rightarrow> bool" where
  "contiguous_from s [] = True"
| "contiguous_from s (b # bs) = (start b = s \<and> contiguous_from (s + size_b b) bs)"

fun no_adjacent_free :: "block list \<Rightarrow> bool" where
  "no_adjacent_free (a # b # bs) = ((allocated a \<or> allocated b) \<and> no_adjacent_free (b # bs))"
| "no_adjacent_free bs = True"

text \<open>Coalescing as a recursion on the list; \<open>merge_loop\<close> computes it from its index on.\<close>

fun coalesce :: "block list \<Rightarrow> block list" where
  "coalesce (a # b # bs) =
     (if \<not> allocated a \<and> \<not> allocated b
      then coalesce (a\<lparr> size_b := num_add (size_b a) (size_b b) \<rparr> # bs)
      else a # coalesce (b # bs))"
| "coalesce bs = bs"

text \<open>The invariants of the data model: positive sizes, contiguous cover of
  \<open>[0, totalSize)\<close>, no two adjacent free blocks, an owner id exactly on the allocated blocks.\<close>

definition well_formed :: "allocator \<Rightarrow> bool" where
  "well_formed st \<longleftrightarrow>
     contiguous_from 0 (blocks st)
     \<and> sum_list (map size_b (blocks st)) = totalSize st
     \<and> no_adjacent_free (blocks st)
     \<and> (\<forall>b \<in> set (blocks st). 0 < size_b b)
     \<and> (\<forall>b \<in> set (blocks st). allocated b \<longleftrightarrow> id_b b \<noteq> None)"

text \<open>Owner ids are pairwise different and were all handed out already.\<close>

definition owners_fresh :: "allocator \<Rightarrow> bool" where
  "owners_fresh st \<longleftrightarrow>
     distinct (map id_b (filter allocated (blocks st)))
     \<and> (\<forall>b \<in> set (blocks st). \<forall>k. id_b b = Some k \<longrightarrow> k < nextId st)"

text \<open>The largest integer below which every integer is a double
  (\<^verbatim>\<open>Number.MAX_SAFE_INTEGER\<close>).\<close>

definition max_safe :: int where
  "max_safe = 2 ^ 53 - 1"

text \<open>Sizes whose sums the source computes without rounding.\<close>

definition sizes_safe :: "block list \<Rightarrow> bool" where
  "sizes_safe bs \<longleftrightarrow> (\<forall>b \<in> set bs. 0 \<le> size_b b) \<and> sum_list (map size_b bs) \<le> max_safe"

text \<open>A well-formed state of positive size within the safe integers.\<close>

definition safe_state :: "allocator \<Rightarrow> bool" where
  "safe_state st \<longleftrightarrow> 0 < totalSize st \<and> totalSize st \<le> max_safe \<and> well_formed st"

definition state_inv :: "allocator \<Rightarrow> bool" where
  "state_inv st \<longleftrightarrow> safe_state st \<and> owners_fresh st \<and> 0 < nextId st"

text \<open>The calls the interface admits: a positive size to allocate, and a safe integer
  that is not negative to reset to (0 keeps the size).\<close>

fun valid_call :: "call \<Rightarrow> bool" where
  "valid_call (Allocate sz now) = (0 < sz)"
| "valid_call (Reset (Some k)) = (0 \<le> k \<and> k \<le> max_safe)"
| "valid_call c = True"

text \<open>The quantities of the statistics in the words of the specification.\<close>

definition allocated_bytes :: "allocator \<Rightarrow> int" where
  "allocated_bytes st = sum_list (map size_b (filter allocated (blocks st)))"

definition free_bytes :: "allocator \<Rightarrow> int" where
  "free_bytes st = sum_list (map size_b (filter (\<lambda>b. \<not> allocated b) (blocks st)))"

definition largest_free_block :: "allocator \<Rightarrow> int" where
  "largest_free_block st =
     (if filter (\<lambda>b. \<not> allocated b) (blocks st) = [] then 0
      else Max (set (map size_b (filter (\<lambda>b. \<not> allocated b) (blocks st)))))"

text \<open>The fragmentation figure in exact arithmetic.\<close>

definition fragmentation_exact :: "allocator \<Rightarrow> rat" where
  "fragmentation_exact st =
     (if free_bytes st = 0 then 0
      else of_int (free_bytes st - largest_free_block st) / of_int (free_bytes st) * 100)"

text \<open>What identifies a block apart from its position.\<close>

definition triple :: "block \<Rightarrow> int \<times> bool \<times> int option" where
  "triple b = (size_b b, allocated b, id_b b)"

section \<open>Example states\<close>

text \<open>
  The state after \<^verbatim>\<open>setStrategy('next-fit')\<close>, \<^verbatim>\<open>allocate(10)\<close>, \<^verbatim>\<open>allocate(20)\<close>,
  \<^verbatim>\<open>allocate(30)\<close>, \<^verbatim>\<open>free(2)\<close> on an allocator of 100 bytes.
\<close>

definition ex_state :: allocator where
  "ex_state =
     \<lparr> totalSize = 100,
       blocks = [\<lparr> start = 0, size_b = 10, allocated = True, id_b = Some 1 \<rparr>,
                 \<lparr> start = 10, size_b = 20, allocated = False, id_b = None \<rparr>,
                 \<lparr> start = 30, size_b = 30, allocated = True, id_b = Some 3 \<rparr>,
                 \<lparr> start = 60, size_b = 40, allocated = False, id_b = None \<rparr>],
       allocations = [\<lparr> id_a = 1, size_a = 10, freed = False, timestamp = 0 \<rparr>,
                      \<lparr> id_a = 2, size_a = 20, freed = True, timestamp = 0 \<rparr>,
                      \<lparr> id_a = 3, size_a = 30, freed = False, timestamp = 0 \<rparr>],
       nextId = 4,
       strategy = ''next-fit'',
       lastSearchIndex = 2 \<rparr>"

text \<open>
  The state after \<^verbatim>\<open>allocate(10)\<close>, \<^verbatim>\<open>allocate(50)\<close>, \<^verbatim>\<open>allocate(20)\<close>, \<^verbatim>\<open>allocate(20)\<close>,
  \<^verbatim>\<open>free(1)\<close>, \<^verbatim>\<open>free(3)\<close> on an allocator of 100 bytes: free blocks of 10 and 20 bytes.
\<close>

definition ex_fragmented :: allocator where
  "ex_fragmented =
     \<lparr> totalSize = 100,
       blocks = [\<lparr> start = 0, size_b = 10, allocated = False, id_b = None \<rparr>,
                 \<lparr> start = 10, size_b = 50, allocated = True, id_b = Some 2 \<rparr>,
                 \<lparr> start = 60, size_b = 20, allocated = False, id_b = None \<rparr>,
                 \<lparr> start = 80, size_b = 20, allocated = True, id_b = Some 4 \<rparr>],
       allocations = [\<lparr> id_a = 1, size_a = 10, freed = True, timestamp = 0 \<rparr>,
                      \<lparr> id_a = 2, size_a = 50, freed = False, timestamp = 0 \<rparr>,
                      \<lparr> id_a = 3, size_a = 20, freed = True, timestamp = 0 \<rparr>,
                      \<lparr> id_a = 4, size_a = 20, freed = False, timestamp = 0 \<rparr>],
       nextId = 5,
       strategy = ''first-fit'',
       lastSearchIndex = 3 \<rparr>"

text \<open>
  The state after \<^verbatim>\<open>allocate(2)\<close>, \<^verbatim>\<open>allocate(9007199254740992)\<close>, \<^verbatim>\<open>free(1)\<close>,
  \<^verbatim>\<open>allocate(1)\<close> on an allocator of \<open>2 ^ 53 + 2\<close> bytes.
\<close>

definition ex_large :: allocator where
  "ex_large =
     \<lparr> totalSize = 9007199254740994,
       blocks = [\<lparr> start = 0, size_b = 1, allocated = True, id_b = Some 3 \<rparr>,
                 \<lparr> start = 1, size_b = 1, allocated = False, id_b = None \<rparr>,
                 \<lparr> start = 2, size_b = 9007199254740992, allocated = True, id_b = Some 2 \<rparr>],
       allocations = [\<lparr> id_a = 1, size_a = 2, freed = True, timestamp = 0 \<rparr>,
                      \<lparr> id_a = 2, size_a = 9007199254740992, freed = False, timestamp = 0 \<rparr>,
                      \<lparr> id_a = 3, size_a = 1, freed = False, timestamp = 0 \<rparr>],
       nextId = 4,
       strategy = ''first-fit'',
       lastSearchIndex = 0 \<rparr>"

section \<open>The searches\<close>

lemma findIndex_None: "findIndex P xs = None \<longleftrightarrow> (\<forall>x \<in> set xs. \<not> P x)"
  by (induction xs) auto

lemma findIndex_Some: "findIndex P xs = Some i \<Longrightarrow> i < length xs \<and> P (xs ! i) \<and> (\<forall>j < i. \<not> P (xs ! j))"
proof (induction xs arbitrary: i)
  case Nil then show ?case by simp
next
  case (Cons x xs)
  show ?case
  proof (cases "P x")
    case True with Cons.prems show ?thesis by simp
  next
    case False
    with Cons.prems obtain k where k: "findIndex P xs = Some k" "i = Suc k" by auto
    from Cons.IH[OF k(1)] False k(2) show ?thesis by (auto simp: less_Suc_eq_0_disj)
  qed
qed

lemma bestFit_loop_none:
  "\<forall>b \<in> set bs. \<not> eligible sz b \<Longrightarrow> bestFit_loop bs sz i bi bsz = bi"
proof (induction bs sz i bi bsz rule: bestFit_loop.induct)
  case (1 bs sz i bestIndex bestSize)
  show ?case
  proof (cases "i < length bs")
    case True
    then have "\<not> eligible sz (bs ! i)" using 1(3) by simp
    then have ne: "\<not> (\<not> allocated (bs ! i) \<and> size_b (bs ! i) \<ge> sz \<and> (case bestSize of None \<Rightarrow> True | Some s \<Rightarrow> size_b (bs ! i) < s))"
      by (auto simp: eligible_def)
    from 1(2)[OF True ne 1(3)] True ne show ?thesis by (subst bestFit_loop.simps) auto
  next
    case False then show ?thesis by (subst bestFit_loop.simps) simp
  qed
qed

lemma bestFit_loop_some:
  "bestFit_loop bs sz i bi bsz = Some k \<Longrightarrow> bi = Some k \<or> (k < length bs \<and> eligible sz (bs ! k))"
proof (induction bs sz i bi bsz rule: bestFit_loop.induct)
  case (1 bs sz i bestIndex bestSize)
  show ?case
  proof (cases "i < length bs")
    case True
    show ?thesis
    proof (cases "\<not> allocated (bs ! i) \<and> size_b (bs ! i) \<ge> sz \<and> (case bestSize of None \<Rightarrow> True | Some s \<Rightarrow> size_b (bs ! i) < s)")
      case c: True
      with True 1(3) have "bestFit_loop bs sz (i + 1) (Some i) (Some (size_b (bs ! i))) = Some k"
        by (subst (asm) bestFit_loop.simps) simp
      from 1(1)[OF True c this] True c show ?thesis by (auto simp: eligible_def)
    next
      case c: False
      with True 1(3) have "bestFit_loop bs sz (i + 1) bestIndex bestSize = Some k"
        by (subst (asm) bestFit_loop.simps) simp
      from 1(2)[OF True c this] show ?thesis .
    qed
  next
    case False with 1(3) show ?thesis by (subst (asm) bestFit_loop.simps) simp
  qed
qed

lemma worstFit_loop_none:
  "\<forall>b \<in> set bs. \<not> eligible sz b \<Longrightarrow> worstFit_loop bs sz i wi wsz = wi"
proof (induction bs sz i wi wsz rule: worstFit_loop.induct)
  case (1 bs sz i worstIndex worstSize)
  show ?case
  proof (cases "i < length bs")
    case True
    then have "\<not> eligible sz (bs ! i)" using 1(3) by simp
    then have ne: "\<not> (\<not> allocated (bs ! i) \<and> size_b (bs ! i) \<ge> sz \<and> size_b (bs ! i) > worstSize)"
      by (auto simp: eligible_def)
    from 1(2)[OF True ne 1(3)] True ne show ?thesis by (subst worstFit_loop.simps) auto
  next
    case False then show ?thesis by (subst worstFit_loop.simps) simp
  qed
qed

lemma worstFit_loop_some:
  "worstFit_loop bs sz i wi wsz = Some k \<Longrightarrow> wi = Some k \<or> (k < length bs \<and> eligible sz (bs ! k))"
proof (induction bs sz i wi wsz rule: worstFit_loop.induct)
  case (1 bs sz i worstIndex worstSize)
  show ?case
  proof (cases "i < length bs")
    case True
    show ?thesis
    proof (cases "\<not> allocated (bs ! i) \<and> size_b (bs ! i) \<ge> sz \<and> size_b (bs ! i) > worstSize")
      case c: True
      with True 1(3) have "worstFit_loop bs sz (i + 1) (Some i) (size_b (bs ! i)) = Some k"
        by (subst (asm) worstFit_loop.simps) simp
      from 1(1)[OF True c this] True c show ?thesis by (auto simp: eligible_def)
    next
      case c: False
      with True 1(3) have "worstFit_loop bs sz (i + 1) worstIndex worstSize = Some k"
        by (subst (asm) worstFit_loop.simps) simp
      from 1(2)[OF True c this] show ?thesis .
    qed
  next
    case False with 1(3) show ?thesis by (subst (asm) worstFit_loop.simps) simp
  qed
qed

subsection \<open>The circular scan of next-fit\<close>

lemma circular_length: "c \<le> n \<Longrightarrow> length (circular n c) = n"
  by (simp add: circular_def)

lemma mod_wrap: "n \<le> m \<Longrightarrow> m < 2 * n \<Longrightarrow> m mod n = m - (n::nat)"
  by (simp add: le_mod_geq)

lemma circular_nth: "c < n \<Longrightarrow> k < n \<Longrightarrow> circular n c ! k = (c + k) mod n"
proof -
  assume c: "c < n" and k: "k < n"
  show ?thesis
  proof (cases "k < n - c")
    case True
    then show ?thesis using c by (simp add: circular_def nth_append)
  next
    case False
    then have "n \<le> c + k" "c + k < 2 * n" using c k by auto
    then have "(c + k) mod n = c + k - n" by (rule mod_wrap)
    with False c k show ?thesis by (simp add: circular_def nth_append)
  qed
qed

lemma circular_next_ne: "c < n \<Longrightarrow> Suc k < n \<Longrightarrow> (c + Suc k) mod n \<noteq> c"
proof (cases "c + Suc k < n")
  case True
  then show ?thesis by simp
next
  case False
  assume "c < n" "Suc k < n"
  with False have "n \<le> c + Suc k" "c + Suc k < 2 * n" by auto
  then have "(c + Suc k) mod n = c + Suc k - n" by (rule mod_wrap)
  with \<open>Suc k < n\<close> \<open>n \<le> c + Suc k\<close> show ?thesis by arith
qed

lemma circular_drop:
  "c < n \<Longrightarrow> k < n \<Longrightarrow> drop k (circular n c) = ((c + k) mod n) # drop (Suc k) (circular n c)"
  using Cons_nth_drop_Suc[of k "circular n c"] by (simp add: circular_length circular_nth)

lemma nextFit_loop_circular:
  assumes c: "c < length bs"
  shows "k < length bs \<Longrightarrow>
         nextFit_loop bs sz c ((c + k) mod length bs)
           = Some (Inr (find (\<lambda>i. eligible sz (bs ! i)) (drop k (circular (length bs) c))))"
proof (induction "length bs - k" arbitrary: k)
  case 0
  then show ?case by simp
next
  case (Suc d)
  let ?n = "length bs"
  let ?cur = "(c + k) mod ?n"
  have pos: "0 < ?n" using c by arith
  have cur: "?cur < ?n" using pos by simp
  have dr: "drop k (circular ?n c) = ?cur # drop (Suc k) (circular ?n c)"
    using circular_drop[OF c Suc.prems] .
  have nxt: "(?cur + 1) mod ?n = (c + Suc k) mod ?n"
    by (simp add: mod_Suc_eq)
  show ?case
  proof (cases "eligible sz (bs ! ?cur)")
    case True
    then show ?thesis using cur dr
      by (subst nextFit_loop.simps) (auto simp: eligible_def)
  next
    case ne: False
    show ?thesis
    proof (cases "Suc k < ?n")
      case True
      have "(c + Suc k) mod ?n \<noteq> c"
        using circular_next_ne[OF c True] .
      moreover have "nextFit_loop bs sz c ((c + Suc k) mod ?n)
           = Some (Inr (find (\<lambda>i. eligible sz (bs ! i)) (drop (Suc k) (circular ?n c))))"
        using Suc.hyps(1)[of "Suc k"] Suc.hyps(2) True by simp
      ultimately show ?thesis using cur dr ne nxt
        by (subst nextFit_loop.simps) (auto simp: eligible_def)
    next
      case False
      then have k: "Suc k = ?n" using Suc.prems by simp
      then have "(c + Suc k) mod ?n = c" using c by simp
      moreover have "drop (Suc k) (circular ?n c) = []" using k c by (simp add: circular_length)
      ultimately show ?thesis using cur dr ne nxt
        by (subst nextFit_loop.simps) (auto simp: eligible_def)
    qed
  qed
qed

lemma nextFit_visits_circular:
  assumes c: "c < length bs"
  shows "k < length bs \<Longrightarrow>
         nextFit_visits bs sz c ((c + k) mod length bs) seen
           = Some (seen @ upto_first (\<lambda>i. eligible sz (bs ! i)) (drop k (circular (length bs) c)))"
proof (induction "length bs - k" arbitrary: k seen)
  case 0
  then show ?case by simp
next
  case (Suc d)
  let ?n = "length bs"
  let ?cur = "(c + k) mod ?n"
  have pos: "0 < ?n" using c by arith
  have cur: "?cur < ?n" using pos by simp
  have dr: "drop k (circular ?n c) = ?cur # drop (Suc k) (circular ?n c)"
    using circular_drop[OF c Suc.prems] .
  have nxt: "(?cur + 1) mod ?n = (c + Suc k) mod ?n"
    by (simp add: mod_Suc_eq)
  show ?case
  proof (cases "eligible sz (bs ! ?cur)")
    case True
    then show ?thesis using cur dr
      by (subst nextFit_visits.simps) (auto simp: eligible_def)
  next
    case ne: False
    show ?thesis
    proof (cases "Suc k < ?n")
      case True
      have "(c + Suc k) mod ?n \<noteq> c"
        using circular_next_ne[OF c True] .
      moreover have "nextFit_visits bs sz c ((c + Suc k) mod ?n) (seen @ [?cur])
           = Some ((seen @ [?cur]) @ upto_first (\<lambda>i. eligible sz (bs ! i)) (drop (Suc k) (circular ?n c)))"
        using Suc.hyps(1)[of "Suc k"] Suc.hyps(2) True by simp
      ultimately show ?thesis using cur dr ne nxt
        by (subst nextFit_visits.simps) (auto simp: eligible_def)
    next
      case False
      then have k: "Suc k = ?n" using Suc.prems by simp
      then have "(c + Suc k) mod ?n = c" using c by simp
      moreover have "drop (Suc k) (circular ?n c) = []" using k c by (simp add: circular_length)
      ultimately show ?thesis using cur dr ne nxt
        by (subst nextFit_visits.simps) (auto simp: eligible_def)
    qed
  qed
qed

lemma upto_first_none: "\<forall>x \<in> set xs. \<not> P x \<Longrightarrow> upto_first P xs = xs"
  by (induction xs) auto

lemma find_none_all: "\<forall>x \<in> set xs. \<not> P x \<Longrightarrow> find P xs = None"
  by (induction xs) auto

lemma circular_hd: "c < n \<Longrightarrow> circular n c = c # drop 1 (circular n c)"
  using circular_drop[of c n 0] by simp

lemma circular_set: "c \<le> n \<Longrightarrow> set (circular n c) = {0..<n}"
  by (auto simp: circular_def)

text \<open>
  C8. For every block list, requested size and cursor that is a valid index of the list, the
  next-fit search returns the first index, in circular order from the cursor, whose block is
  free and at least as large as the request; the cursor's own block is returned at once when
  it is eligible; and when no block is eligible the search returns not-found after it has
  examined every index exactly once, in circular order.
\<close>

theorem nextFit_circular_scan:
  assumes "lastSearchIndex st < length (blocks st)"
  shows "nextFit st sz
           = Some (Inr (find (\<lambda>i. eligible sz (blocks st ! i))
                          (circular (length (blocks st)) (lastSearchIndex st))))
       \<and> nextFit_visits (blocks st) sz (lastSearchIndex st) (lastSearchIndex st) []
           = Some (upto_first (\<lambda>i. eligible sz (blocks st ! i))
                          (circular (length (blocks st)) (lastSearchIndex st)))
       \<and> (eligible sz (blocks st ! lastSearchIndex st) \<longrightarrow>
            nextFit st sz = Some (Inr (Some (lastSearchIndex st))))
       \<and> ((\<forall>b \<in> set (blocks st). \<not> eligible sz b) \<longrightarrow>
            nextFit st sz = Some (Inr None)
            \<and> nextFit_visits (blocks st) sz (lastSearchIndex st) (lastSearchIndex st) []
                = Some (circular (length (blocks st)) (lastSearchIndex st)))"
proof -
  let ?bs = "blocks st" and ?c = "lastSearchIndex st"
  let ?L = "circular (length ?bs) ?c"
  let ?P = "\<lambda>i. eligible sz (?bs ! i)"
  have pos: "0 < length ?bs" using assms by arith
  have r: "nextFit st sz = Some (Inr (find ?P ?L))"
    using nextFit_loop_circular[OF assms pos, of sz] assms by (simp add: nextFit_def)
  have v: "nextFit_visits ?bs sz ?c ?c [] = Some (upto_first ?P ?L)"
    using nextFit_visits_circular[OF assms pos, of sz "[]"] assms by simp
  have h: "eligible sz (?bs ! ?c) \<longrightarrow> find ?P ?L = Some ?c"
    using circular_hd[OF assms] by (metis find.simps(2))
  have n: "(\<forall>b \<in> set ?bs. \<not> eligible sz b) \<longrightarrow> (\<forall>i \<in> set ?L. \<not> ?P i)"
    using assms by (simp add: circular_set)
  show ?thesis using r v h n by (simp add: upto_first_none find_none_all)
qed

theorem nextFit_circular_scan_witness:
  "lastSearchIndex ex_state < length (blocks ex_state)
   \<and> nextFit ex_state 30 = Some (Inr (Some 3))
   \<and> nextFit_visits (blocks ex_state) 30 2 2 [] = Some [2, 3]
   \<and> nextFit ex_state 50 = Some (Inr None)
   \<and> nextFit_visits (blocks ex_state) 50 2 2 [] = Some [2, 3, 0, 1]"
proof -
  let ?c = "lastSearchIndex ex_state"
  have h: "?c < length (blocks ex_state)" by (simp add: ex_state_def)
  have l: "?c = 2" by (simp add: ex_state_def)
  have c: "circular (length (blocks ex_state)) ?c = [2, 3, 0, 1]"
    by (simp add: ex_state_def circular_def upt_rec)
  have n: "\<forall>b \<in> set (blocks ex_state). \<not> eligible 50 b"
    by (simp add: ex_state_def eligible_def)
  have f: "find (\<lambda>i. eligible 30 (blocks ex_state ! i)) [2, 3, 0, 1] = Some 3"
          "upto_first (\<lambda>i. eligible 30 (blocks ex_state ! i)) [2, 3, 0, 1] = [2, 3]"
    by (simp_all add: ex_state_def eligible_def)
  have a1: "nextFit ex_state 30 = Some (Inr (Some 3))"
    using nextFit_circular_scan[OF h, of 30] by (simp only: c f)
  have a2: "nextFit_visits (blocks ex_state) 30 ?c ?c [] = Some [2, 3]"
    using nextFit_circular_scan[OF h, of 30] by (simp only: c f)
  have b1: "nextFit ex_state 50 = Some (Inr None)"
    using nextFit_circular_scan[OF h, of 50] n by blast
  have "nextFit_visits (blocks ex_state) 50 ?c ?c []
          = Some (circular (length (blocks ex_state)) ?c)"
    using nextFit_circular_scan[OF h, of 50] n by blast
  then have b2: "nextFit_visits (blocks ex_state) 50 ?c ?c [] = Some [2, 3, 0, 1]"
    by (simp only: c)
  show ?thesis using h a1 a2 b1 b2 by (simp only: l)
qed

section \<open>Numbers\<close>

lemma fl_exact: "\<bar>x\<bar> \<le> 2 ^ 53 \<Longrightarrow> fl x = x"
  by (simp add: fl_def)

lemma num_add_exact: "0 \<le> a \<Longrightarrow> 0 \<le> b \<Longrightarrow> a + b \<le> max_safe \<Longrightarrow> num_add a b = a + b"
  by (simp add: num_add_def max_safe_def fl_exact)

lemma num_sub_exact: "0 \<le> b \<Longrightarrow> b \<le> a \<Longrightarrow> a \<le> max_safe \<Longrightarrow> num_sub a b = a - b"
  by (simp add: num_sub_def max_safe_def fl_exact)

lemma num_sub_exact': "0 \<le> a \<Longrightarrow> a \<le> max_safe \<Longrightarrow> 0 \<le> b \<Longrightarrow> b \<le> max_safe \<Longrightarrow> num_sub a b = a - b"
  by (simp add: num_sub_def max_safe_def fl_exact)

subsection \<open>Rounding a quotient\<close>

lemma pow2_powi: "pow2 e = (2::rat) powi e"
proof (cases "0 \<le> e")
  case True
  then show ?thesis by (simp only: pow2_def power_int_def if_True)
next
  case False
  have "(1::rat) / 2 ^ nat (- e) = inverse 2 ^ nat (- e)"
    by (simp only: inverse_eq_divide power_one_over)
  with False show ?thesis by (simp only: pow2_def power_int_def if_False)
qed

lemma bit_len_bounds: "0 < n \<Longrightarrow> n < 2 ^ bit_len n \<and> 2 ^ bit_len n \<le> 2 * n"
proof (induction n rule: bit_len.induct)
  case (1 n)
  show ?case
  proof (cases "n div 2 \<le> 0")
    case True
    with 1(2) have "n = 1" by arith
    then show ?thesis by (simp add: bit_len.simps[of 1] bit_len.simps[of 0])
  next
    case False
    with 1(1)[of] 1(2) have ih: "n div 2 < 2 ^ bit_len (n div 2)" "2 ^ bit_len (n div 2) \<le> 2 * (n div 2)"
      by auto
    have b: "bit_len n = Suc (bit_len (n div 2))" using 1(2) by (subst bit_len.simps) simp
    have "n < 2 * (n div 2) + 2" by arith
    with ih show ?thesis unfolding b by auto
  qed
qed

lemma binade:
  fixes a :: rat
  assumes "0 < a"
  defines "d \<equiv> int (bit_len (fst (quotient_of a))) - int (bit_len (snd (quotient_of a)))"
  shows "(2::rat) powi (d - 1) < a" and "a < (2::rat) powi (d + 1)"
proof -
  obtain p q where pq: "quotient_of a = (p, q)" by (cases "quotient_of a")
  then have q: "0 < q" and a: "a = of_int p / of_int q"
    using quotient_of_denom_pos quotient_of_div by blast+
  have p: "0 < p" using assms(1) a q by (simp add: zero_less_divide_iff)
  note bp = bit_len_bounds[OF p] and bq = bit_len_bounds[OF q]
  have d: "d = int (bit_len p) - int (bit_len q)" by (simp add: d_def pq)
  have P1: "(of_int p :: rat) < 2 ^ bit_len p" and P2: "(2 :: rat) ^ bit_len p \<le> 2 * of_int p"
    using bp by (metis of_int_less_iff of_int_numeral of_int_power, metis of_int_le_iff of_int_numeral of_int_power of_int_mult)
  have Q1: "(of_int q :: rat) < 2 ^ bit_len q" and Q2: "(2 :: rat) ^ bit_len q \<le> 2 * of_int q"
    using bq by (metis of_int_less_iff of_int_numeral of_int_power, metis of_int_le_iff of_int_numeral of_int_power of_int_mult)
  have e1: "(2::rat) powi (d + 1) = 2 * 2 ^ bit_len p / 2 ^ bit_len q"
    unfolding d by (simp add: power_int_add power_int_diff)
  have e2: "(2::rat) powi (d - 1) = 2 ^ bit_len p / (2 * 2 ^ bit_len q)"
    unfolding d by (simp add: power_int_diff)
  have qp: "(0::rat) < of_int q" using q by simp
  have pp: "(0::rat) < of_int p" using p by simp
  show "a < 2 powi (d + 1)"
  proof -
    have "a * 2 ^ bit_len q \<le> a * (2 * of_int q)" using Q2 assms(1) by (simp add: mult_left_mono)
    also have "\<dots> = 2 * of_int p" using a qp by simp
    also have "\<dots> < 2 * 2 ^ bit_len p" using P1 by simp
    finally show ?thesis unfolding e1 by (simp add: pos_less_divide_eq)
  qed
  show "2 powi (d - 1) < a"
  proof -
    have "(2::rat) ^ bit_len p \<le> 2 * of_int p" by (rule P2)
    also have "\<dots> = a * (2 * of_int q)" using a qp by simp
    also have "\<dots> < a * (2 * 2 ^ bit_len q)" using Q1 assms(1) by (simp add: mult_strict_left_mono)
    finally show ?thesis unfolding e2 by (simp add: pos_divide_less_eq)
  qed
qed

lemma fl_rat_shape:
  assumes "0 < x"
  shows "\<exists>e m. fl_rat x = of_int m * (2::rat) powi (max e (- 1022) - 52)
           \<and> (2::rat) powi e \<le> x \<and> x < (2::rat) powi (e + 1)
           \<and> \<bar>of_int m - x / (2::rat) powi (max e (- 1022) - 52)\<bar> \<le> 1 / 2"
proof -
  define d where "d = int (bit_len (fst (quotient_of x))) - int (bit_len (snd (quotient_of x)))"
  define e where "e = (if (2::rat) powi d \<le> x then d else d - 1)"
  define u where "u = (2::rat) powi (max e (- 1022) - 52)"
  define n where "n = \<lfloor>x / u\<rfloor>"
  define f where "f = x / u - of_int n"
  define m where "m = (if f > 1 / 2 \<or> (f = 1 / 2 \<and> odd n) then n + 1 else n)"
  have ax: "\<bar>x\<bar> = x" "sgn x = 1" "x \<noteq> 0" using assms by simp_all
  have "fl_rat x = of_int m * u"
    unfolding fl_rat_def Let_def ax pow2_powi m_def f_def n_def u_def e_def d_def
    using ax(3) by simp
  moreover have "(2::rat) powi e \<le> x \<and> x < (2::rat) powi (e + 1)"
    using binade[OF assms] unfolding e_def d_def by (auto simp: less_imp_le)
  moreover have "\<bar>of_int m - x / u\<bar> \<le> 1 / 2"
  proof -
    have f0: "0 \<le> f" and f1: "f < 1" unfolding f_def n_def by linarith+
    have "x / u = of_int n + f" by (simp add: f_def)
    then show ?thesis unfolding m_def using f0 f1 by auto
  qed
  ultimately show ?thesis unfolding u_def by blast
qed

lemma fl_rat_error:
  assumes "(2::rat) powi (- 1022) \<le> x"
  shows "\<bar>fl_rat x - x\<bar> \<le> x / 2 ^ 53"
proof -
  have x: "0 < x" using assms by (rule less_le_trans[rotated]) simp
  from fl_rat_shape[OF x] obtain e m where
    r: "fl_rat x = of_int m * (2::rat) powi (max e (- 1022) - 52)"
    and lo: "(2::rat) powi e \<le> x" and hi: "x < (2::rat) powi (e + 1)"
    and h: "\<bar>of_int m - x / (2::rat) powi (max e (- 1022) - 52)\<bar> \<le> 1 / 2"
    by blast
  have "(2::rat) powi (- 1022) < 2 powi (e + 1)" using assms hi by simp
  have "- 1022 < e + 1"
  proof (rule ccontr)
    assume "\<not> - 1022 < e + 1"
    then have "e + 1 \<le> - 1022" by simp
    then have "(2::rat) powi (e + 1) \<le> 2 powi (- 1022)" by (intro power_int_increasing) simp_all
    with \<open>(2::rat) powi (- 1022) < 2 powi (e + 1)\<close> show False by simp
  qed
  then have mx: "max e (- 1022) = e" by simp
  define u where "u = (2::rat) powi (e - 52)"
  have u: "0 < u" unfolding u_def by simp
  have ue: "u * 2 ^ 52 = 2 powi e" unfolding u_def by (simp add: power_int_diff)
  have "(of_int m - x / u) * u = of_int m * u - x" using u by (simp add: field_simps)
  then have "\<bar>of_int m * u - x\<bar> = \<bar>(of_int m - x / u) * u\<bar>" by simp
  also have "\<dots> = \<bar>of_int m - x / u\<bar> * u" using u by (simp add: abs_mult)
  finally have A: "\<bar>fl_rat x - x\<bar> = \<bar>of_int m - x / u\<bar> * u"
    unfolding r mx u_def[symmetric] .
  have B: "\<bar>of_int m - x / u\<bar> * u \<le> (1 / 2) * u"
    using h u unfolding mx u_def[symmetric] by (simp add: mult_right_mono)
  have C: "(1 / 2) * u = 2 powi e / 2 ^ 53" using ue by (simp add: field_simps)
  have D: "(2::rat) powi e / 2 ^ 53 \<le> x / 2 ^ 53" using lo by (simp add: divide_right_mono)
  show ?thesis using A B C D by linarith
qed

section \<open>Coalescing\<close>

lemma merge_loop_coalesce: "merge_loop i bs = take i bs @ coalesce (drop i bs)"
proof (induction i bs rule: merge_loop.induct)
  case (1 i bs)
  show ?case
  proof (cases "i + 1 < length bs")
    case False
    then have "drop i bs = [] \<or> (\<exists>x. drop i bs = [x])"
      by (cases "drop i bs"; cases "tl (drop i bs)") (auto simp: drop_Suc[symmetric] dest!: arg_cong[where f=length])
    then have "coalesce (drop i bs) = drop i bs" by auto
    with False show ?thesis by (subst merge_loop.simps) simp
  next
    case True
    let ?a = "bs ! i" and ?b = "bs ! (i + 1)" and ?r = "drop (i + 2) bs"
    have d: "drop i bs = ?a # ?b # ?r"
      using True by (metis Cons_nth_drop_Suc Suc_eq_plus1 add_2_eq_Suc' add_lessD1)
    show ?thesis
    proof (cases "\<not> allocated ?a \<and> \<not> allocated ?b")
      case m: True
      let ?a' = "?a\<lparr> size_b := num_add (size_b ?a) (size_b ?b) \<rparr>"
      let ?bs' = "take (i + 1) (bs[i := ?a']) @ ?r"
      have e: "?bs' = take i bs @ ?a' # ?r"
        using True by (simp add: take_Suc_conv_app_nth)
      have l: "length (take i bs) = i" using True by simp
      have "merge_loop i bs = merge_loop i ?bs'"
        using True m by (subst merge_loop.simps) simp
      also have "\<dots> = take i ?bs' @ coalesce (drop i ?bs')"
        using 1(1)[OF True m] .
      also have "\<dots> = take i (take i bs @ ?a' # ?r) @ coalesce (drop i (take i bs @ ?a' # ?r))"
        by (simp only: e)
      also have "\<dots> = take i bs @ coalesce (?a' # ?r)" using l by simp
      also have "coalesce (?a' # ?r) = coalesce (drop i bs)" using m by (simp add: d)
      finally show ?thesis .
    next
      case m: False
      have "merge_loop i bs = merge_loop (i + 1) bs"
        using True m by (subst merge_loop.simps) auto
      also have "\<dots> = take (i + 1) bs @ coalesce (drop (i + 1) bs)"
        using 1(2)[OF True m] .
      also have "\<dots> = take i bs @ ?a # coalesce (?b # ?r)"
        using True d by (simp add: take_Suc_conv_app_nth drop_Suc[symmetric]) (metis Cons_nth_drop_Suc Suc_eq_plus1 add_2_eq_Suc' drop_Suc list.sel(3) tl_drop)
      also have "?a # coalesce (?b # ?r) = coalesce (drop i bs)" using m by (auto simp: d)
      finally show ?thesis .
    qed
  qed
qed

lemma mergeAdjacentFreeBlocks_coalesce: "mergeAdjacentFreeBlocks bs = coalesce bs"
  by (simp add: mergeAdjacentFreeBlocks_def merge_loop_coalesce)

lemma coalesce_hd:
  "coalesce (b # bs) \<noteq> [] \<and> allocated (hd (coalesce (b # bs))) = allocated b
     \<and> id_b (hd (coalesce (b # bs))) = id_b b \<and> start (hd (coalesce (b # bs))) = start b"
proof (induction bs arbitrary: b)
  case Nil show ?case by simp
next
  case (Cons c cs)
  show ?case using Cons[of "b\<lparr> size_b := num_add (size_b b) (size_b c) \<rparr>"] by simp
qed

lemma sum_sizes_nonneg: "\<forall>b \<in> set bs. 0 \<le> size_b b \<Longrightarrow> 0 \<le> sum_list (map size_b bs)"
  by (induction bs) auto

lemma sizes_safe_merge:
  assumes "sizes_safe (a # b # bs)"
  shows "num_add (size_b a) (size_b b) = size_b a + size_b b"
    and "sizes_safe (a\<lparr> size_b := size_b a + size_b b \<rparr> # bs)"
    and "sizes_safe (b # bs)"
proof -
  from assms have a: "0 \<le> size_b a" and b: "0 \<le> size_b b"
    and r: "\<forall>x \<in> set bs. 0 \<le> size_b x"
    and s: "size_b a + size_b b + sum_list (map size_b bs) \<le> max_safe"
    by (simp_all add: sizes_safe_def)
  have "0 \<le> sum_list (map size_b bs)" using r by (rule sum_sizes_nonneg)
  with s have ab: "size_b a + size_b b \<le> max_safe" by simp
  show "num_add (size_b a) (size_b b) = size_b a + size_b b" using a b ab by (rule num_add_exact)
  show "sizes_safe (a\<lparr> size_b := size_b a + size_b b \<rparr> # bs)"
    using a b r s by (simp add: sizes_safe_def)
  show "sizes_safe (b # bs)" using a b r s by (simp add: sizes_safe_def)
qed

lemma coalesce_contiguous:
  "sizes_safe bs \<Longrightarrow> contiguous_from s bs \<Longrightarrow> contiguous_from s (coalesce bs)"
proof (induction bs arbitrary: s rule: coalesce.induct)
  case (1 a b bs)
  note m = sizes_safe_merge[OF 1(3)]
  show ?case
  proof (cases "\<not> allocated a \<and> \<not> allocated b")
    case True
    have "contiguous_from s (a\<lparr> size_b := size_b a + size_b b \<rparr> # bs)"
      using 1(4) by (simp add: algebra_simps)
    from 1(1)[OF True _ this[folded m(1)]] m(1,2) True show ?thesis by simp
  next
    case False
    from 1(2)[OF False m(3), of "s + size_b a"] 1(4) False show ?thesis by auto
  qed
qed simp_all

lemma coalesce_sum:
  "sizes_safe bs \<Longrightarrow> sum_list (map size_b (coalesce bs)) = sum_list (map size_b bs)"
proof (induction bs rule: coalesce.induct)
  case (1 a b bs)
  note m = sizes_safe_merge[OF 1(3)]
  show ?case
  proof (cases "\<not> allocated a \<and> \<not> allocated b")
    case True
    from 1(1)[OF True] m(1,2) True show ?thesis by simp
  next
    case False
    from 1(2)[OF False m(3)] False show ?thesis by auto
  qed
qed simp_all

lemma coalesce_positive:
  "sizes_safe bs \<Longrightarrow> \<forall>b \<in> set bs. 0 < size_b b \<Longrightarrow> \<forall>b \<in> set (coalesce bs). 0 < size_b b"
proof (induction bs rule: coalesce.induct)
  case (1 a b bs)
  note m = sizes_safe_merge[OF 1(3)]
  show ?case
  proof (cases "\<not> allocated a \<and> \<not> allocated b")
    case True
    have "\<forall>x \<in> set (a\<lparr> size_b := size_b a + size_b b \<rparr> # bs). 0 < size_b x"
      using 1(4) by simp
    from 1(1)[OF True _ this[folded m(1)]] m(1,2) True show ?thesis by simp
  next
    case False
    from 1(2)[OF False m(3)] 1(4) False show ?thesis by auto
  qed
qed simp_all

lemma coalesce_no_adjacent_free: "no_adjacent_free (coalesce bs)"
proof (induction bs rule: coalesce.induct)
  case (1 a b bs)
  show ?case
  proof (cases "\<not> allocated a \<and> \<not> allocated b")
    case True
    then show ?thesis using 1(1) by simp
  next
    case False
    obtain c cs where c: "coalesce (b # bs) = c # cs" "allocated c = allocated b"
      using coalesce_hd[of b bs] by (cases "coalesce (b # bs)") auto
    with False 1(2) show ?thesis by auto
  qed
qed simp_all

lemma coalesce_filter_allocated: "filter allocated (coalesce bs) = filter allocated bs"
  by (induction bs rule: coalesce.induct) auto

lemma coalesce_owner:
  "\<forall>b \<in> set bs. P (allocated b) (id_b b) \<Longrightarrow> \<forall>b \<in> set (coalesce bs). P (allocated b) (id_b b)"
  by (induction bs rule: coalesce.induct) auto

lemma coalesce_fixed: "no_adjacent_free bs \<Longrightarrow> coalesce bs = bs"
  by (induction bs rule: coalesce.induct) auto

section \<open>A successful allocation\<close>

lemma nextFit_out_of_range:
  "\<not> lastSearchIndex st < length (blocks st) \<Longrightarrow> nextFit st sz = Some (Inl TypeError)"
  unfolding nextFit_def by (subst nextFit_loop.simps) simp

lemma nextFit_some:
  assumes "nextFit st sz = Some (Inr (Some i))"
  shows "i < length (blocks st) \<and> eligible sz (blocks st ! i)"
proof (cases "lastSearchIndex st < length (blocks st)")
  case False
  from nextFit_out_of_range[OF this, of sz] assms show ?thesis by simp
next
  case True
  then have pos: "0 < length (blocks st)" by arith
  let ?L = "circular (length (blocks st)) (lastSearchIndex st)"
  have "find (\<lambda>i. eligible sz (blocks st ! i)) ?L = Some i"
    using nextFit_loop_circular[OF True pos, of sz] True assms by (simp add: nextFit_def)
  then have "i \<in> set ?L \<and> eligible sz (blocks st ! i)"
    by (auto simp: find_Some_iff)
  then show ?thesis using True by (simp add: circular_set)
qed

lemma search_some:
  assumes "search st sz = Some (Inr (Some i))"
  shows "i < length (blocks st) \<and> eligible sz (blocks st ! i)"
proof -
  consider (ff) "firstFit (blocks st) sz = Some i" | (bf) "bestFit (blocks st) sz = Some i"
    | (wf) "worstFit (blocks st) sz = Some i" | (nf) "nextFit st sz = Some (Inr (Some i))"
    using assms by (auto simp: search_def split: if_splits)
  then show ?thesis
  proof cases
    case ff
    then have "findIndex (\<lambda>b. \<not> allocated b \<and> size_b b \<ge> sz) (blocks st) = Some i"
      by (simp add: firstFit_def)
    from findIndex_Some[OF this] show ?thesis by (simp add: eligible_def)
  next
    case bf
    then show ?thesis using bestFit_loop_some[of "blocks st" sz 0 None None i] by (simp add: bestFit_def)
  next
    case wf
    then show ?thesis using worstFit_loop_some[of "blocks st" sz 0 None "- 1" i] by (simp add: worstFit_def)
  next
    case nf
    then show ?thesis by (rule nextFit_some)
  qed
qed

lemma allocate_some:
  assumes "search st sz = Some (Inr (Some i))"
  shows "allocate st sz now =
     Some (Inr (Some (nextId st),
       st\<lparr> blocks := (if size_b (blocks st ! i) = sz
                        then (blocks st)[i := (blocks st ! i)\<lparr> allocated := True, id_b := Some (nextId st) \<rparr>]
                        else take i (blocks st)
                             @ [\<lparr> start = start (blocks st ! i), size_b = sz,
                                   allocated = True, id_b = Some (nextId st) \<rparr>,
                                 (blocks st ! i)\<lparr> start := num_add (start (blocks st ! i)) sz,
                                                   size_b := num_sub (size_b (blocks st ! i)) sz \<rparr>]
                             @ drop (Suc i) (blocks st)),
           allocations := allocations st @
              [\<lparr> id_a = nextId st, size_a = sz, freed = False, timestamp = now \<rparr>],
           nextId := num_add (nextId st) 1,
           lastSearchIndex := i \<rparr>))"
proof -
  have i: "i < length (blocks st)" using search_some[OF assms] by simp
  have "take i ((blocks st)[i := x]) @ nb # drop i ((blocks st)[i := x])
        = take i (blocks st) @ [nb, x] @ drop (Suc i) (blocks st)" for x nb
    using i by (simp add: upd_conv_take_nth_drop)
  then show ?thesis using assms i by (simp add: allocate_def Let_def)
qed

text \<open>
  C6, within the safe integers. When the search of the active strategy chooses the block at
  index \<open>i\<close>, that block is free and at least as large as the request, and \<open>allocate\<close>
  succeeds with the next id. If the request is positive and the chosen block lies within
  the safe integers (its start is not negative and its end is at most \<open>2 ^ 53 - 1\<close>): when the
  request is strictly smaller than the block, the block list afterwards has, at position
  \<open>i\<close>, a new allocated block with the old start, the requested size and the new id,
  followed at once by the remainder of the chosen block, still free, with start advanced
  and size reduced by the request, and the blocks before and after are as they were; when
  the request equals the block's size, the block is marked allocated in place with the new
  id.
\<close>

theorem allocate_split:
  assumes "search st sz = Some (Inr (Some i))"
      and "0 < sz"
      and "0 \<le> start (blocks st ! i)"
      and "start (blocks st ! i) + size_b (blocks st ! i) \<le> max_safe"
  shows "i < length (blocks st) \<and> \<not> allocated (blocks st ! i) \<and> sz \<le> size_b (blocks st ! i)
       \<and> (\<exists>st'. allocate st sz now = Some (Inr (Some (nextId st), st'))
            \<and> (sz < size_b (blocks st ! i) \<longrightarrow>
                 blocks st' = take i (blocks st)
                    @ [\<lparr> start = start (blocks st ! i), size_b = sz,
                          allocated = True, id_b = Some (nextId st) \<rparr>,
                        (blocks st ! i)\<lparr> start := start (blocks st ! i) + sz,
                                          size_b := size_b (blocks st ! i) - sz \<rparr>]
                    @ drop (Suc i) (blocks st))
            \<and> (sz = size_b (blocks st ! i) \<longrightarrow>
                 blocks st' = (blocks st)[i := (blocks st ! i)\<lparr> allocated := True,
                                                                 id_b := Some (nextId st) \<rparr>]))"
proof -
  from search_some[OF assms(1)] have i: "i < length (blocks st)"
    and fr: "\<not> allocated (blocks st ! i)" and fit: "sz \<le> size_b (blocks st ! i)"
    by (simp_all add: eligible_def)
  have a: "num_add (start (blocks st ! i)) sz = start (blocks st ! i) + sz"
    using assms(2,3,4) fit by (intro num_add_exact) simp_all
  have s: "num_sub (size_b (blocks st ! i)) sz = size_b (blocks st ! i) - sz"
    using assms(2,3,4) fit by (intro num_sub_exact) simp_all
  show ?thesis
    using i fr fit allocate_some[OF assms(1), of now] by (auto simp: a s)
qed

theorem allocate_split_witness:
  "search ex_state 30 = Some (Inr (Some 3))
   \<and> (\<exists>st'. allocate ex_state 30 0 = Some (Inr (Some 4, st'))
         \<and> blocks st' = [\<lparr> start = 0, size_b = 10, allocated = True, id_b = Some 1 \<rparr>,
                         \<lparr> start = 10, size_b = 20, allocated = False, id_b = None \<rparr>,
                         \<lparr> start = 30, size_b = 30, allocated = True, id_b = Some 3 \<rparr>,
                         \<lparr> start = 60, size_b = 30, allocated = True, id_b = Some 4 \<rparr>,
                         \<lparr> start = 90, size_b = 10, allocated = False, id_b = None \<rparr>])
   \<and> search (setStrategy ex_state ''best-fit'') 20 = Some (Inr (Some 1))
   \<and> (\<exists>st'. allocate (setStrategy ex_state ''best-fit'') 20 0 = Some (Inr (Some 4, st'))
         \<and> blocks st' = [\<lparr> start = 0, size_b = 10, allocated = True, id_b = Some 1 \<rparr>,
                         \<lparr> start = 10, size_b = 20, allocated = True, id_b = Some 4 \<rparr>,
                         \<lparr> start = 30, size_b = 30, allocated = True, id_b = Some 3 \<rparr>,
                         \<lparr> start = 60, size_b = 40, allocated = False, id_b = None \<rparr>])"
proof -
  have s1: "search ex_state 30 = Some (Inr (Some 3))" by code_simp
  have s3: "search (setStrategy ex_state ''best-fit'') 20 = Some (Inr (Some 1))" by code_simp
  have b: "blocks (setStrategy ex_state ''best-fit'') = blocks ex_state"
          "nextId (setStrategy ex_state ''best-fit'') = nextId ex_state"
    by (simp_all add: setStrategy_def)
  have h1: "0 \<le> start (blocks ex_state ! 3)"
           "start (blocks ex_state ! 3) + size_b (blocks ex_state ! 3) \<le> max_safe"
    by (simp_all add: ex_state_def max_safe_def)
  have h3: "0 \<le> start (blocks (setStrategy ex_state ''best-fit'') ! 1)"
           "start (blocks (setStrategy ex_state ''best-fit'') ! 1)
              + size_b (blocks (setStrategy ex_state ''best-fit'') ! 1) \<le> max_safe"
    unfolding b by (simp_all add: ex_state_def max_safe_def)
  show ?thesis
    using allocate_split[OF s1 _ h1, of 0] allocate_split[OF s3 _ h3, of 0] s1 s3
    by (simp add: b) (simp add: ex_state_def)
qed

text \<open>
  Beyond the safe integers the source rounds: an allocation of 1 from a free block of
  \<open>2 ^ 53 + 2\<close> bytes leaves a remainder of \<open>2 ^ 53\<close> bytes, not of \<open>2 ^ 53 + 1\<close>.
\<close>

theorem allocate_split_counterexample:
  "search (constructor 9007199254740994) 1 = Some (Inr (Some 0))
   \<and> 1 < size_b (blocks (constructor 9007199254740994) ! 0)
   \<and> (\<exists>st'. allocate (constructor 9007199254740994) 1 0 = Some (Inr (Some 1, st'))
         \<and> blocks st' = [\<lparr> start = 0, size_b = 1, allocated = True, id_b = Some 1 \<rparr>,
                         \<lparr> start = 1, size_b = 9007199254740992, allocated = False, id_b = None \<rparr>]
         \<and> size_b (blocks st' ! 1) \<noteq> size_b (blocks (constructor 9007199254740994) ! 0) - 1)"
proof -
  let ?st = "constructor 9007199254740994"
  have s: "search ?st 1 = Some (Inr (Some 0))" by code_simp
  have f: "num_sub 9007199254740994 1 = 9007199254740992" by code_simp
  have a: "num_add 0 1 = 1" "num_add 1 1 = 2" by code_simp+
  show ?thesis
    using allocate_some[OF s, of 0] s by (simp add: constructor_def f a)
qed

section \<open>Release\<close>

lemma mark_freed_null: "mark_freed None as = as"
  by (induction as) auto


lemma free_known:
  assumes "\<exists>b \<in> set (blocks st). id_b b = aid"
  shows "\<exists>i. findIndex (\<lambda>b. id_b b = aid) (blocks st) = Some i \<and> i < length (blocks st)
            \<and> id_b (blocks st ! i) = aid
            \<and> free st aid = (True,
                 st\<lparr> blocks := coalesce ((blocks st)[i := (blocks st ! i)\<lparr> allocated := False, id_b := None \<rparr>]),
                     allocations := mark_freed aid (allocations st) \<rparr>)"
proof -
  have "findIndex (\<lambda>b. id_b b = aid) (blocks st) \<noteq> None"
    using assms by (simp add: findIndex_None)
  then obtain i where i: "findIndex (\<lambda>b. id_b b = aid) (blocks st) = Some i" by auto
  from findIndex_Some[OF i] i show ?thesis
    by (simp add: free_def mergeAdjacentFreeBlocks_coalesce)
qed


lemma free_null_unchanged:
  assumes "well_formed st" and "\<exists>b \<in> set (blocks st). \<not> allocated b"
  shows "free st None = (True, st)"
proof -
  from assms have o: "\<forall>b \<in> set (blocks st). allocated b \<longleftrightarrow> id_b b \<noteq> None"
    and n: "no_adjacent_free (blocks st)" by (simp_all add: well_formed_def)
  have "\<exists>b \<in> set (blocks st). id_b b = None" using assms(2) o by blast
  from free_known[OF this] obtain i where
    i: "i < length (blocks st)" "id_b (blocks st ! i) = None"
    and f: "free st None = (True,
                 st\<lparr> blocks := coalesce ((blocks st)[i := (blocks st ! i)\<lparr> allocated := False, id_b := None \<rparr>]),
                     allocations := mark_freed None (allocations st) \<rparr>)"
    by blast
  have "\<not> allocated (blocks st ! i)" using o i by (metis nth_mem)
  then have "(blocks st ! i)\<lparr> allocated := False, id_b := None \<rparr> = blocks st ! i"
    using i(2) by simp
  then have "(blocks st)[i := (blocks st ! i)\<lparr> allocated := False, id_b := None \<rparr>] = blocks st"
    by (simp add: list_update_id)
  then show ?thesis using f n by (simp add: coalesce_fixed mark_freed_null)
qed

text \<open>
  C10. In every state that has a free block, where free blocks carry the id \<^verbatim>\<open>null\<close>,
  \<open>free\<close> called with \<^verbatim>\<open>null\<close> returns true: the lookup compares owner ids only. In a
  well-formed state the call finds a block that is free already, and changes nothing.
\<close>

theorem free_null_returns_true:
  assumes "\<forall>b \<in> set (blocks st). \<not> allocated b \<longrightarrow> id_b b = None"
      and "\<exists>b \<in> set (blocks st). \<not> allocated b"
  shows "fst (free st None) = True \<and> (well_formed st \<longrightarrow> snd (free st None) = st)"
proof -
  have "\<exists>b \<in> set (blocks st). id_b b = None" using assms by blast
  from free_known[OF this] have "fst (free st None) = True" by auto
  moreover have "well_formed st \<longrightarrow> snd (free st None) = st"
    using free_null_unchanged[OF _ assms(2)] by simp
  ultimately show ?thesis by blast
qed

theorem free_null_returns_true_witness:
  "\<not> allocated (blocks ex_state ! 1) \<and> id_b (blocks ex_state ! 1) = None
   \<and> fst (free ex_state None) = True \<and> snd (free ex_state None) = ex_state"
proof -
  have a: "\<forall>b \<in> set (blocks ex_state). \<not> allocated b \<longrightarrow> id_b b = None"
    by (simp add: ex_state_def)
  have b: "\<exists>b \<in> set (blocks ex_state). \<not> allocated b"
    by (simp add: ex_state_def)
  have w: "well_formed ex_state" by (simp add: well_formed_def ex_state_def)
  have c: "\<not> allocated (blocks ex_state ! 1) \<and> id_b (blocks ex_state ! 1) = None"
    by (simp add: ex_state_def)
  show ?thesis using free_null_returns_true[OF a b] w c by blast
qed



section \<open>Allocation fails without a change\<close>

lemma search_none:
  assumes "\<forall>b \<in> set (blocks st). \<not> eligible sz b"
      and "strategy st = ''next-fit'' \<Longrightarrow> lastSearchIndex st < length (blocks st)"
  shows "search st sz = Some (Inr None)"
proof -
  have ff: "firstFit (blocks st) sz = None"
    using assms(1) by (simp add: firstFit_def findIndex_None eligible_def)
  have bf: "bestFit (blocks st) sz = None"
    using bestFit_loop_none[OF assms(1)] by (simp add: bestFit_def)
  have wf: "worstFit (blocks st) sz = None"
    using worstFit_loop_none[OF assms(1)] by (simp add: worstFit_def)
  have nf: "strategy st = ''next-fit'' \<Longrightarrow> nextFit st sz = Some (Inr None)"
  proof -
    assume "strategy st = ''next-fit''"
    then have c: "lastSearchIndex st < length (blocks st)" by (rule assms(2))
    then have pos: "0 < length (blocks st)" by arith
    have "\<forall>i \<in> set (circular (length (blocks st)) (lastSearchIndex st)). \<not> eligible sz (blocks st ! i)"
      using assms(1) c by (simp add: circular_set)
    then show ?thesis
      using nextFit_loop_circular[OF c pos, of sz] c by (simp add: nextFit_def find_none_all)
  qed
  show ?thesis using ff bf wf nf by (simp add: search_def)
qed

text \<open>
  With the cursor in range under next-fit, an allocation that no block can serve returns
  \<^verbatim>\<open>null\<close> and changes nothing.
\<close>

lemma allocate_out_of_memory_in_range:
  assumes "\<forall>b \<in> set (blocks st). \<not> eligible sz b"
      and "strategy st = ''next-fit'' \<Longrightarrow> lastSearchIndex st < length (blocks st)"
  shows "allocate st sz now = Some (Inr (None, st))"
  using search_none[OF assms] by (simp add: allocate_def)

section \<open>Defragmentation\<close>

lemma cmp_same:
  assumes "allocated a = allocated b"
      and "0 \<le> start a" "start a \<le> max_safe" "0 \<le> start b" "start b \<le> max_safe"
  shows "cmp a b = start a - start b"
  using assms by (auto simp: cmp_def num_sub_exact')

lemma insort_cmp_allocated:
  assumes "allocated x" and "0 \<le> start x" "start x \<le> max_safe"
      and "\<forall>y \<in> set ys. 0 \<le> start y \<and> start y \<le> max_safe"
      and "\<forall>y \<in> set ys. allocated y \<longrightarrow> start x \<le> start y"
  shows "insort_cmp x ys = x # ys"
proof (cases ys)
  case Nil then show ?thesis by simp
next
  case (Cons y ys')
  show ?thesis
  proof (cases "allocated y")
    case True
    then have "cmp x y = start x - start y"
      using assms Cons by (intro cmp_same) simp_all
    then show ?thesis using assms True Cons by simp
  next
    case False
    then show ?thesis using assms(1) Cons by (simp add: cmp_def)
  qed
qed

lemma insort_cmp_free:
  assumes "\<not> allocated x" and "0 \<le> start x" "start x \<le> max_safe"
      and "\<forall>y \<in> set as. allocated y"
      and "\<forall>y \<in> set fs. \<not> allocated y \<and> start x \<le> start y \<and> 0 \<le> start y \<and> start y \<le> max_safe"
  shows "insort_cmp x (as @ fs) = as @ x # fs"
  using assms(4)
proof (induction as)
  case Nil
  show ?case
  proof (cases fs)
    case Nil then show ?thesis by simp
  next
    case (Cons y ys')
    then have "cmp x y = start x - start y"
      using assms by (intro cmp_same) simp_all
    then show ?thesis using assms Cons by simp
  qed
next
  case (Cons a as)
  then show ?case using assms(1) by (auto simp: cmp_def)
qed

lemma sort_cmp_partition:
  "sorted (map start bs) \<Longrightarrow> \<forall>b \<in> set bs. 0 \<le> start b \<and> start b \<le> max_safe \<Longrightarrow>
   sort_cmp bs = filter allocated bs @ filter (\<lambda>b. \<not> allocated b) bs"
proof (induction bs)
  case Nil
  then show ?case by (simp add: sort_cmp_def)
next
  case (Cons x xs)
  then have ih: "sort_cmp xs = filter allocated xs @ filter (\<lambda>b. \<not> allocated b) xs"
    and le: "\<forall>y \<in> set xs. start x \<le> start y" by auto
  from Cons.prems(2) have bx: "0 \<le> start x" "start x \<le> max_safe"
    and bs: "\<forall>y \<in> set xs. 0 \<le> start y \<and> start y \<le> max_safe" by simp_all
  have s: "sort_cmp (x # xs) = insort_cmp x (sort_cmp xs)" by (simp add: sort_cmp_def)
  show ?case
  proof (cases "allocated x")
    case True
    have "\<forall>y \<in> set (sort_cmp xs). 0 \<le> start y \<and> start y \<le> max_safe"
         "\<forall>y \<in> set (sort_cmp xs). allocated y \<longrightarrow> start x \<le> start y"
      using le bs by (auto simp: ih)
    from insort_cmp_allocated[OF True bx this] True show ?thesis by (simp add: s ih)
  next
    case False
    have "\<forall>y \<in> set (filter allocated xs). allocated y"
         "\<forall>y \<in> set (filter (\<lambda>b. \<not> allocated b) xs).
             \<not> allocated y \<and> start x \<le> start y \<and> 0 \<le> start y \<and> start y \<le> max_safe"
      using le bs by auto
    from insort_cmp_free[OF False bx this] False show ?thesis by (simp add: s ih)
  qed
qed

lemma contiguous_lower:
  "contiguous_from s bs \<Longrightarrow> \<forall>b \<in> set bs. 0 < size_b b \<Longrightarrow> \<forall>b \<in> set bs. s \<le> start b"
proof (induction bs arbitrary: s)
  case Nil then show ?case by simp
next
  case (Cons a bs)
  then have "\<forall>b \<in> set bs. s + size_b a \<le> start b" by auto
  with Cons.prems show ?case by auto
qed

lemma contiguous_sorted:
  "contiguous_from s bs \<Longrightarrow> \<forall>b \<in> set bs. 0 < size_b b \<Longrightarrow> sorted (map start bs)"
proof (induction bs arbitrary: s)
  case Nil then show ?case by simp
next
  case (Cons a bs)
  have "\<forall>b \<in> set bs. s + size_b a \<le> start b"
    using contiguous_lower[of "s + size_b a" bs] Cons.prems by auto
  with Cons show ?case by auto
qed

lemma contiguous_upper:
  "contiguous_from s bs \<Longrightarrow> \<forall>b \<in> set bs. 0 \<le> size_b b
     \<Longrightarrow> \<forall>b \<in> set bs. start b + size_b b \<le> s + sum_list (map size_b bs)"
proof (induction bs arbitrary: s)
  case Nil then show ?case by simp
next
  case (Cons a bs)
  have "0 \<le> sum_list (map size_b bs)" using Cons.prems(2) by (intro sum_sizes_nonneg) simp
  moreover have "\<forall>b \<in> set bs. start b + size_b b \<le> s + size_b a + sum_list (map size_b bs)"
    using Cons.IH[of "s + size_b a"] Cons.prems by simp
  ultimately show ?case using Cons.prems by auto
qed

lemma sum_filter_partition:
  "sum_list (map f (filter P xs)) + sum_list (map f (filter (\<lambda>x. \<not> P x) xs)) = (sum_list (map f xs) :: int)"
  by (induction xs) auto

lemma relayout_append:
  "0 \<le> s \<Longrightarrow> \<forall>b \<in> set xs. 0 \<le> size_b b \<Longrightarrow> s + sum_list (map size_b xs) \<le> max_safe \<Longrightarrow>
   relayout s (xs @ ys) = relayout s xs @ relayout (s + sum_list (map size_b xs)) ys"
proof (induction xs arbitrary: s)
  case Nil then show ?case by simp
next
  case (Cons x xs)
  have n: "0 \<le> sum_list (map size_b xs)" using Cons.prems(2) by (intro sum_sizes_nonneg) simp
  have e: "num_add s (size_b x) = s + size_b x"
    using Cons.prems n by (intro num_add_exact) simp_all
  show ?case using Cons.IH[of "s + size_b x"] Cons.prems by (simp add: e algebra_simps)
qed

lemma relayout_contiguous:
  "0 \<le> s \<Longrightarrow> \<forall>b \<in> set bs. 0 \<le> size_b b \<Longrightarrow> s + sum_list (map size_b bs) \<le> max_safe \<Longrightarrow>
   contiguous_from s (relayout s bs)"
proof (induction bs arbitrary: s)
  case Nil then show ?case by simp
next
  case (Cons x xs)
  have n: "0 \<le> sum_list (map size_b xs)" using Cons.prems(2) by (intro sum_sizes_nonneg) simp
  have e: "num_add s (size_b x) = s + size_b x"
    using Cons.prems n by (intro num_add_exact) simp_all
  show ?case using Cons.IH[of "s + size_b x"] Cons.prems by (simp add: e algebra_simps)
qed

lemma relayout_map: "map triple (relayout s bs) = map triple bs"
  by (induction bs arbitrary: s) (auto simp: triple_def)

lemma relayout_allocated: "\<forall>b \<in> set bs. P (allocated b) \<Longrightarrow> \<forall>b \<in> set (relayout s bs). P (allocated b)"
  by (induction bs arbitrary: s) auto

lemma relayout_sizes: "map size_b (relayout s bs) = map size_b bs"
  by (induction bs arbitrary: s) auto

lemma sizes_safe_cong: "map size_b xs = map size_b ys \<Longrightarrow> sizes_safe xs = sizes_safe ys"
proof -
  assume e: "map size_b xs = map size_b ys"
  have a: "(\<forall>b \<in> set zs. 0 \<le> size_b b) \<longleftrightarrow> (\<forall>v \<in> set (map size_b zs). 0 \<le> v)" for zs
    by simp
  have "(\<forall>b \<in> set xs. 0 \<le> size_b b) \<longleftrightarrow> (\<forall>b \<in> set ys. 0 \<le> size_b b)"
    unfolding a[of xs] a[of ys] by (simp only: e)
  then show ?thesis unfolding sizes_safe_def by (simp only: e)
qed

lemma coalesce_all_free:
  "\<not> allocated f \<Longrightarrow> \<forall>b \<in> set fs. \<not> allocated b \<Longrightarrow> sizes_safe (f # fs)
     \<Longrightarrow> coalesce (f # fs) = [f\<lparr> size_b := size_b f + sum_list (map size_b fs) \<rparr>]"
proof (induction fs arbitrary: f)
  case Nil then show ?case by simp
next
  case (Cons g gs)
  note m = sizes_safe_merge[OF Cons.prems(3)]
  from Cons.IH[of "f\<lparr> size_b := size_b f + size_b g \<rparr>"] Cons.prems(1,2) m(1,2)
  show ?case by (simp add: algebra_simps)
qed

lemma coalesce_allocated_prefix:
  "\<forall>b \<in> set as. allocated b \<Longrightarrow> coalesce (as @ ys) = as @ coalesce ys"
proof (induction as)
  case Nil then show ?case by simp
next
  case (Cons a as)
  then show ?case by (cases "as @ ys") auto
qed

lemma prefix_allocated_before_free:
  assumes "\<forall>b \<in> set as. allocated b" and "\<forall>b \<in> set fs. \<not> allocated b"
      and "i < length (as @ fs)" and "j < length (as @ fs)"
      and "allocated ((as @ fs) ! i)" and "\<not> allocated ((as @ fs) ! j)"
  shows "i < j"
proof -
  have "i < length as"
  proof (rule ccontr)
    assume "\<not> i < length as"
    then have "(as @ fs) ! i \<in> set fs" using assms(3) by (simp add: nth_append)
    with assms(2,5) show False by blast
  qed
  moreover have "length as \<le> j"
  proof (rule ccontr)
    assume "\<not> length as \<le> j"
    then have "(as @ fs) ! j \<in> set as" by (simp add: nth_append)
    with assms(1,6) show False by blast
  qed
  ultimately show ?thesis by simp
qed

lemma sum_positive: "\<forall>b \<in> set bs. 0 < size_b b \<Longrightarrow> bs \<noteq> [] \<Longrightarrow> 0 < sum_list (map size_b bs)"
proof -
  assume p: "\<forall>b \<in> set bs. 0 < size_b b" and n: "bs \<noteq> []"
  then obtain a as where bs: "bs = a # as" by (cases bs) auto
  have "0 \<le> sum_list (map size_b as)" using p bs by (intro sum_sizes_nonneg) auto
  then show ?thesis using p bs by simp
qed

lemma well_formed_safe:
  assumes "well_formed st" and "totalSize st \<le> max_safe"
  shows "sizes_safe (blocks st)"
    and "\<forall>b \<in> set (blocks st). 0 \<le> start b \<and> start b \<le> max_safe"
    and "\<forall>b \<in> set (blocks st). start b + size_b b \<le> max_safe"
    and "sorted (map start (blocks st))"
proof -
  from assms(1) have c: "contiguous_from 0 (blocks st)"
    and s: "sum_list (map size_b (blocks st)) = totalSize st"
    and p: "\<forall>b \<in> set (blocks st). 0 < size_b b"
    by (simp_all add: well_formed_def)
  from p have n: "\<forall>b \<in> set (blocks st). 0 \<le> size_b b" by auto
  show "sizes_safe (blocks st)" using n s assms(2) by (simp add: sizes_safe_def)
  have lo: "\<forall>b \<in> set (blocks st). 0 \<le> start b" using contiguous_lower[OF c p] .
  have up: "\<forall>b \<in> set (blocks st). start b + size_b b \<le> totalSize st"
    using contiguous_upper[OF c n] s by simp
  show "\<forall>b \<in> set (blocks st). start b + size_b b \<le> max_safe" using up assms(2) by auto
  show "\<forall>b \<in> set (blocks st). 0 \<le> start b \<and> start b \<le> max_safe"
    using lo up n assms(2) by fastforce
  show "sorted (map start (blocks st))" using contiguous_sorted[OF c p] .
qed

lemma defragment_blocks:
  assumes "well_formed st" and "totalSize st \<le> max_safe"
  shows "blocks (defragment st) =
           relayout 0 (filter allocated (blocks st))
           @ (if filter (\<lambda>b. \<not> allocated b) (blocks st) = [] then []
              else [\<lparr> start = allocated_bytes st, size_b = free_bytes st,
                      allocated = False, id_b = None \<rparr>])"
proof -
  let ?A = "filter allocated (blocks st)" and ?F = "filter (\<lambda>b. \<not> allocated b) (blocks st)"
  note w = well_formed_safe[OF assms]
  have s: "sort_cmp (blocks st) = ?A @ ?F" using w(4) w(2) by (rule sort_cmp_partition)
  have nn: "\<forall>b \<in> set (blocks st). 0 \<le> size_b b" using w(1) by (simp add: sizes_safe_def)
  have tot: "allocated_bytes st + free_bytes st \<le> max_safe"
    using w(1) sum_filter_partition[of size_b allocated "blocks st"]
    by (simp add: sizes_safe_def allocated_bytes_def free_bytes_def)
  have fn: "0 \<le> free_bytes st" "0 \<le> allocated_bytes st"
    using nn by (auto simp: free_bytes_def allocated_bytes_def intro!: sum_sizes_nonneg)
  have a: "\<forall>b \<in> set (relayout 0 ?A). allocated b"
    using relayout_allocated[of ?A "\<lambda>a. a" 0] by simp
  have ra: "relayout 0 (?A @ ?F) = relayout 0 ?A @ relayout (allocated_bytes st) ?F"
    using relayout_append[of 0 ?A ?F] nn tot fn by (simp add: allocated_bytes_def)
  have "blocks (defragment st) = coalesce (relayout 0 (?A @ ?F))"
    by (simp add: defragment_def mergeAdjacentFreeBlocks_coalesce s)
  also have "\<dots> = relayout 0 ?A @ coalesce (relayout (allocated_bytes st) ?F)"
    using coalesce_allocated_prefix[OF a] by (simp add: ra)
  also have "coalesce (relayout (allocated_bytes st) ?F) =
        (if ?F = [] then []
         else [\<lparr> start = allocated_bytes st, size_b = free_bytes st, allocated = False, id_b = None \<rparr>])"
  proof (cases ?F)
    case Nil then show ?thesis by simp
  next
    case (Cons f fs)
    then have "set (f # fs) = set ?F" by simp
    then have m: "\<forall>b \<in> set (f # fs). \<not> allocated b \<and> b \<in> set (blocks st)" by auto
    then have fs: "\<forall>b \<in> set fs. \<not> allocated b" by simp
    have f: "\<not> allocated f" "id_b f = None" "f \<in> set (blocks st)"
      using assms m by (auto simp: well_formed_def)
    have fb: "free_bytes st = size_b f + sum_list (map size_b fs)"
      using Cons by (simp add: free_bytes_def)
    let ?r = "relayout (num_add (allocated_bytes st) (size_b f)) fs"
    have fr: "\<forall>b \<in> set ?r. \<not> allocated b"
      using relayout_allocated[where P = "\<lambda>a. \<not> a" and bs = fs] fs by simp
    have sz: "map size_b (f\<lparr> start := allocated_bytes st \<rparr> # ?r) = map size_b (f # fs)"
      by (simp add: relayout_sizes)
    have "sizes_safe (f # fs)"
      using m nn fb tot fn by (auto simp: sizes_safe_def)
    then have ss: "sizes_safe (f\<lparr> start := allocated_bytes st \<rparr> # ?r)"
      using sizes_safe_cong[OF sz] by simp
    have "sum_list (map size_b ?r) = sum_list (map size_b fs)"
      by (simp add: relayout_sizes)
    then have "coalesce (relayout (allocated_bytes st) (f # fs))
          = [f\<lparr> start := allocated_bytes st, size_b := size_b f + sum_list (map size_b fs) \<rparr>]"
      using coalesce_all_free[of "f\<lparr> start := allocated_bytes st \<rparr>", OF _ fr ss] f by simp
    also have "f\<lparr> start := allocated_bytes st, size_b := size_b f + sum_list (map size_b fs) \<rparr>
          = \<lparr> start = allocated_bytes st, size_b = free_bytes st, allocated = False, id_b = None \<rparr>"
      using f fb by (intro block.equality) simp_all
    finally show ?thesis using Cons by simp
  qed
  finally show ?thesis .
qed

lemma free_bytes_zero:
  assumes "well_formed st"
  shows "free_bytes st = 0 \<longleftrightarrow> filter (\<lambda>b. \<not> allocated b) (blocks st) = []"
proof (cases "filter (\<lambda>b. \<not> allocated b) (blocks st) = []")
  case True then show ?thesis by (simp add: free_bytes_def)
next
  case False
  have "\<forall>b \<in> set (filter (\<lambda>b. \<not> allocated b) (blocks st)). 0 < size_b b"
    using assms by (simp add: well_formed_def)
  from sum_positive[OF this False] False show ?thesis by (simp add: free_bytes_def)
qed

lemma defragment_contiguous:
  assumes "well_formed st" and "totalSize st \<le> max_safe"
  shows "contiguous_from 0 (blocks (defragment st))"
proof -
  let ?A = "filter allocated (blocks st)" and ?F = "filter (\<lambda>b. \<not> allocated b) (blocks st)"
  note w = well_formed_safe[OF assms]
  have s: "sort_cmp (blocks st) = ?A @ ?F" using w(4) w(2) by (rule sort_cmp_partition)
  have nn: "\<forall>b \<in> set (?A @ ?F). 0 \<le> size_b b" using w(1) by (auto simp: sizes_safe_def)
  have su: "sum_list (map size_b (?A @ ?F)) \<le> max_safe"
    using w(1) sum_filter_partition[of size_b allocated "blocks st"] by (simp add: sizes_safe_def)
  have c: "contiguous_from 0 (relayout 0 (?A @ ?F))"
    using relayout_contiguous[of 0 "?A @ ?F"] nn su by simp
  have "sizes_safe (?A @ ?F)" using nn su by (simp only: sizes_safe_def)
  then have "sizes_safe (relayout 0 (?A @ ?F))"
    using sizes_safe_cong[OF relayout_sizes[of 0 "?A @ ?F"]] by simp
  from coalesce_contiguous[OF this c] show ?thesis
    by (simp add: defragment_def mergeAdjacentFreeBlocks_coalesce s)
qed

text \<open>
  C7, as the code has it. In every well-formed state whose total size is a safe integer
  (at most \<open>2 ^ 53 - 1\<close>) \<open>defragment\<close> leaves the allocated
  blocks, in their order and with their sizes and owner ids, laid out contiguously from 0,
  followed by a single free block that holds all the free bytes (by no free block when
  there are no free bytes). So every allocated block precedes every free block, at most one
  free block remains, the free bytes are the same, and the allocation history and the
  other fields are unchanged. The free blocks are merged: their number and sizes change.
\<close>

theorem defragment_compacts:
  assumes "well_formed st" and "totalSize st \<le> max_safe"
  shows "blocks (defragment st) =
           relayout 0 (filter allocated (blocks st))
           @ (if free_bytes st = 0 then []
              else [\<lparr> start = allocated_bytes st, size_b = free_bytes st,
                      allocated = False, id_b = None \<rparr>])
       \<and> map triple (filter allocated (blocks (defragment st)))
           = map triple (filter allocated (blocks st))
       \<and> contiguous_from 0 (blocks (defragment st))
       \<and> (\<forall>i j. i < length (blocks (defragment st)) \<longrightarrow> j < length (blocks (defragment st)) \<longrightarrow>
                 allocated (blocks (defragment st) ! i) \<longrightarrow>
                 \<not> allocated (blocks (defragment st) ! j) \<longrightarrow> i < j)
       \<and> length (filter (\<lambda>b. \<not> allocated b) (blocks (defragment st))) \<le> 1
       \<and> (free_bytes st = 0 \<longrightarrow> filter (\<lambda>b. \<not> allocated b) (blocks (defragment st)) = [])
       \<and> free_bytes (defragment st) = free_bytes st
       \<and> allocations (defragment st) = allocations st
       \<and> totalSize (defragment st) = totalSize st
       \<and> nextId (defragment st) = nextId st
       \<and> strategy (defragment st) = strategy st
       \<and> lastSearchIndex (defragment st) = lastSearchIndex st"
proof -
  let ?A = "relayout 0 (filter allocated (blocks st))"
  let ?X = "if free_bytes st = 0 then []
            else [\<lparr> start = allocated_bytes st, size_b = free_bytes st, allocated = False, id_b = None \<rparr>]"
  have b: "blocks (defragment st) = ?A @ ?X"
    using defragment_blocks[OF assms] free_bytes_zero[OF assms(1)] by simp
  have a: "\<forall>b \<in> set ?A. allocated b"
    using relayout_allocated[of "filter allocated (blocks st)" "\<lambda>a. a" 0] by simp
  have x: "\<forall>b \<in> set ?X. \<not> allocated b" by simp
  have a': "\<forall>b \<in> set ?A. \<not> \<not> allocated b" using a by blast
  have fa: "filter allocated (?A @ ?X) = ?A"
    by (simp only: filter_append filter_True[OF a] filter_False[OF x] append_Nil2)
  have ff: "filter (\<lambda>b. \<not> allocated b) (?A @ ?X) = ?X"
    by (simp only: filter_append filter_True[OF x] filter_False[OF a'] append_Nil)
  have t: "map triple (filter allocated (blocks (defragment st))) = map triple (filter allocated (blocks st))"
    by (simp only: b fa relayout_map)
  have c: "contiguous_from 0 (blocks (defragment st))"
    using assms by (rule defragment_contiguous)
  have o: "\<forall>i j. i < length (blocks (defragment st)) \<longrightarrow> j < length (blocks (defragment st)) \<longrightarrow>
                 allocated (blocks (defragment st) ! i) \<longrightarrow>
                 \<not> allocated (blocks (defragment st) ! j) \<longrightarrow> i < j"
  proof (intro allI impI)
    fix i j
    assume 1: "i < length (blocks (defragment st))" and 2: "j < length (blocks (defragment st))"
      and 3: "allocated (blocks (defragment st) ! i)" and 4: "\<not> allocated (blocks (defragment st) ! j)"
    show "i < j"
      using prefix_allocated_before_free[OF a x 1[unfolded b] 2[unfolded b] 3[unfolded b] 4[unfolded b]] .
  qed
  have l: "length (filter (\<lambda>b. \<not> allocated b) (blocks (defragment st))) \<le> 1"
    by (simp only: b ff) simp
  have z: "free_bytes st = 0 \<longrightarrow> filter (\<lambda>b. \<not> allocated b) (blocks (defragment st)) = []"
    by (simp only: b ff) simp
  have fb: "free_bytes (defragment st) = free_bytes st"
    unfolding free_bytes_def[of "defragment st"] by (simp only: b ff) simp
  have r: "allocations (defragment st) = allocations st" "totalSize (defragment st) = totalSize st"
    "nextId (defragment st) = nextId st" "strategy (defragment st) = strategy st"
    "lastSearchIndex (defragment st) = lastSearchIndex st"
    by (simp_all add: defragment_def)
  show ?thesis by (intro conjI b t c o l z fb r)
qed


theorem defragment_compacts_witness:
  "well_formed ex_state \<and> totalSize ex_state \<le> max_safe
   \<and> blocks (defragment ex_state) =
       [\<lparr> start = 0, size_b = 10, allocated = True, id_b = Some 1 \<rparr>,
        \<lparr> start = 10, size_b = 30, allocated = True, id_b = Some 3 \<rparr>,
        \<lparr> start = 40, size_b = 60, allocated = False, id_b = None \<rparr>]
   \<and> allocations (defragment ex_state) = allocations ex_state"
proof -
  have w: "well_formed ex_state" by (simp add: well_formed_def ex_state_def)
  have m: "totalSize ex_state \<le> max_safe" by (simp add: ex_state_def max_safe_def)
  have f: "free_bytes ex_state = 60" "allocated_bytes ex_state = 40"
    by (simp_all add: free_bytes_def allocated_bytes_def ex_state_def)
  have a: "relayout 0 (filter allocated (blocks ex_state)) =
       [\<lparr> start = 0, size_b = 10, allocated = True, id_b = Some 1 \<rparr>,
        \<lparr> start = 10, size_b = 30, allocated = True, id_b = Some 3 \<rparr>]"
    by code_simp
  have "blocks (defragment ex_state) =
           relayout 0 (filter allocated (blocks ex_state))
           @ (if free_bytes ex_state = 0 then []
              else [\<lparr> start = allocated_bytes ex_state, size_b = free_bytes ex_state,
                      allocated = False, id_b = None \<rparr>])"
    and r: "allocations (defragment ex_state) = allocations ex_state"
    using defragment_compacts[OF w m] by blast+
  then have "blocks (defragment ex_state) =
       [\<lparr> start = 0, size_b = 10, allocated = True, id_b = Some 1 \<rparr>,
        \<lparr> start = 10, size_b = 30, allocated = True, id_b = Some 3 \<rparr>,
        \<lparr> start = 40, size_b = 60, allocated = False, id_b = None \<rparr>]"
    by (simp add: f a)
  with w m r show ?thesis by blast
qed

text \<open>
  The multiset of (size, allocated, owner id) over all blocks is not preserved: the example
  state has two free blocks, of 20 and 40 bytes, and one of 60 bytes after the call. And
  beyond the safe integers the starts are not laid out contiguously: in the state
  \<open>ex_large\<close>, which is well formed, the running start \<open>1 + 2 ^ 53\<close> is rounded to \<open>2 ^ 53\<close>.
\<close>

theorem defragment_multiset_counterexample:
  "well_formed ex_state
   \<and> mset (map triple (blocks (defragment ex_state))) \<noteq> mset (map triple (blocks ex_state))
   \<and> run (constructor 9007199254740994)
         [Allocate 2 0, Allocate 9007199254740992 0, Free (Some 1), Allocate 1 0] = Some ex_large
   \<and> well_formed ex_large
   \<and> blocks (defragment ex_large) =
        [\<lparr> start = 0, size_b = 1, allocated = True, id_b = Some 3 \<rparr>,
         \<lparr> start = 1, size_b = 9007199254740992, allocated = True, id_b = Some 2 \<rparr>,
         \<lparr> start = 9007199254740992, size_b = 1, allocated = False, id_b = None \<rparr>]
   \<and> \<not> contiguous_from 0 (blocks (defragment ex_large))"
proof -
  have w: "well_formed ex_state" by (simp add: well_formed_def ex_state_def)
  have b: "blocks (defragment ex_state) =
       [\<lparr> start = 0, size_b = 10, allocated = True, id_b = Some 1 \<rparr>,
        \<lparr> start = 10, size_b = 30, allocated = True, id_b = Some 3 \<rparr>,
        \<lparr> start = 40, size_b = 60, allocated = False, id_b = None \<rparr>]"
    by code_simp
  have l: "length (blocks (defragment ex_state)) = 3" by (simp add: b)
  have l': "length (blocks ex_state) = 4" by (simp add: ex_state_def)
  have m: "mset (map triple (blocks (defragment ex_state))) \<noteq> mset (map triple (blocks ex_state))"
  proof
    assume "mset (map triple (blocks (defragment ex_state))) = mset (map triple (blocks ex_state))"
    then have "length (map triple (blocks (defragment ex_state))) = length (map triple (blocks ex_state))"
      by (rule mset_eq_length)
    with l l' show False by simp
  qed
  have r: "run (constructor 9007199254740994)
         [Allocate 2 0, Allocate 9007199254740992 0, Free (Some 1), Allocate 1 0] = Some ex_large"
    by code_simp
  have wl: "well_formed ex_large" by (simp add: well_formed_def ex_large_def)
  have bl: "blocks (defragment ex_large) =
        [\<lparr> start = 0, size_b = 1, allocated = True, id_b = Some 3 \<rparr>,
         \<lparr> start = 1, size_b = 9007199254740992, allocated = True, id_b = Some 2 \<rparr>,
         \<lparr> start = 9007199254740992, size_b = 1, allocated = False, id_b = None \<rparr>]"
    by code_simp
  have nc: "\<not> contiguous_from 0 (blocks (defragment ex_large))" by (simp add: bl)
  show ?thesis by (intro conjI w m r wl bl nc)
qed

section \<open>The invariants under each call\<close>

lemma contiguous_append:
  "contiguous_from s (xs @ ys) \<longleftrightarrow>
     contiguous_from s xs \<and> contiguous_from (s + sum_list (map size_b xs)) ys"
  by (induction xs arbitrary: s) (auto simp: algebra_simps)

lemma no_adjacent_free_append:
  "no_adjacent_free (xs @ y # ys) \<longleftrightarrow> no_adjacent_free (xs @ [y]) \<and> no_adjacent_free (y # ys)"
  by (induction xs rule: no_adjacent_free.induct) auto

lemma no_adjacent_free_snoc:
  "no_adjacent_free (xs @ [b]) \<Longrightarrow> allocated x \<Longrightarrow> no_adjacent_free (xs @ [x])"
  by (induction xs rule: no_adjacent_free.induct) auto

lemma no_adjacent_free_head:
  "allocated b' = allocated b \<Longrightarrow> no_adjacent_free (b' # post) = no_adjacent_free (b # post)"
  by (cases post) auto

lemma no_adjacent_free_tail: "no_adjacent_free (x # xs) \<Longrightarrow> no_adjacent_free xs"
  by (cases xs) auto

lemma no_adjacent_free_occupy:
  assumes "no_adjacent_free (pre @ b # post)" and "allocated x"
  shows "no_adjacent_free (pre @ x # post)"
proof -
  from assms(1) have 1: "no_adjacent_free (pre @ [b])" and 2: "no_adjacent_free (b # post)"
    using no_adjacent_free_append[of pre b post] by auto
  have "no_adjacent_free (x # post)"
    using no_adjacent_free_tail[OF 2] assms(2) by (cases post) auto
  with no_adjacent_free_snoc[OF 1 assms(2)] show ?thesis
    using no_adjacent_free_append[of pre x post] by auto
qed

lemma no_adjacent_free_split:
  assumes "no_adjacent_free (pre @ b # post)" and "allocated n" and "allocated b' = allocated b"
  shows "no_adjacent_free (pre @ n # b' # post)"
proof -
  from assms(1) have 1: "no_adjacent_free (pre @ [b])" and 2: "no_adjacent_free (b # post)"
    using no_adjacent_free_append[of pre b post] by auto
  have "no_adjacent_free (b' # post)" using 2 no_adjacent_free_head[OF assms(3)] by simp
  then have "no_adjacent_free (n # b' # post)" using assms(2) by simp
  with no_adjacent_free_snoc[OF 1 assms(2)] show ?thesis
    using no_adjacent_free_append[of pre n "b' # post"] by auto
qed

lemma contiguous_index:
  "contiguous_from s bs \<Longrightarrow> i + 1 < length bs \<Longrightarrow> start (bs ! i) + size_b (bs ! i) = start (bs ! (i + 1))"
proof (induction bs arbitrary: s i)
  case Nil then show ?case by simp
next
  case (Cons b bs)
  show ?case
  proof (cases i)
    case 0
    with Cons.prems show ?thesis by (cases bs) auto
  next
    case (Suc k)
    with Cons.prems Cons.IH[of "s + size_b b" k] show ?thesis by simp
  qed
qed

lemma no_adjacent_free_index:
  "no_adjacent_free bs \<Longrightarrow> i + 1 < length bs \<Longrightarrow> allocated (bs ! i) \<or> allocated (bs ! (i + 1))"
proof (induction bs arbitrary: i rule: no_adjacent_free.induct)
  case (1 a b bs)
  show ?case
  proof (cases i)
    case 0 with 1 show ?thesis by simp
  next
    case (Suc k)
    with 1(2,3) 1(1)[of k] show ?thesis by simp
  qed
qed simp_all

lemma constructor_safe: "0 < n \<Longrightarrow> n \<le> max_safe \<Longrightarrow> safe_state (constructor n)"
  by (simp add: safe_state_def well_formed_def constructor_def)

lemma setStrategy_safe: "safe_state st \<Longrightarrow> safe_state (setStrategy st s)"
  by (simp add: safe_state_def well_formed_def setStrategy_def)

lemma reset_safe:
  assumes "safe_state st" and "valid_call (Reset r)"
  shows "safe_state (reset st r)"
proof -
  let ?n = "case r of None \<Rightarrow> totalSize st | Some k \<Rightarrow> if k \<noteq> 0 then k else totalSize st"
  have "0 < ?n \<and> ?n \<le> max_safe" using assms by (cases r) (auto simp: safe_state_def)
  then show ?thesis
    by (simp add: safe_state_def well_formed_def reset_def Let_def)
qed

lemma allocate_cases:
  assumes "allocate st sz now = Some (Inr (r, st'))"
  shows "st' = st \<or> (\<exists>i. search st sz = Some (Inr (Some i)))"
proof (cases "search st sz")
  case None
  with assms show ?thesis by (simp add: allocate_def)
next
  case (Some res)
  show ?thesis
  proof (cases res)
    case (Inl e)
    with Some assms show ?thesis by (simp add: allocate_def)
  next
    case (Inr found)
    with Some assms show ?thesis by (cases found) (simp_all add: allocate_def)
  qed
qed

lemma allocate_safe:
  assumes inv: "safe_state st" and sz: "0 < sz"
      and al: "allocate st sz now = Some (Inr (r, st'))"
  shows "safe_state st'"
proof -
  from allocate_cases[OF al] show ?thesis
  proof
    assume "st' = st" with inv show ?thesis by simp
  next
    assume "\<exists>i. search st sz = Some (Inr (Some i))"
    then obtain i where se: "search st sz = Some (Inr (Some i))" by blast
    let ?bs = "blocks st" and ?nid = "nextId st"
    let ?b = "?bs ! i" and ?pre = "take i ?bs" and ?post = "drop (Suc i) ?bs"
    let ?b1 = "?b\<lparr> allocated := True, id_b := Some ?nid \<rparr>"
    let ?n = "\<lparr> start = start ?b, size_b = sz, allocated = True, id_b = Some ?nid \<rparr>"
    let ?b2 = "?b\<lparr> start := start ?b + sz, size_b := size_b ?b - sz \<rparr>"
    let ?bs' = "if size_b ?b = sz then ?pre @ ?b1 # ?post else ?pre @ ?n # ?b2 # ?post"
    from search_some[OF se] have i: "i < length ?bs" and fr: "\<not> allocated ?b" and fit: "sz \<le> size_b ?b"
      by (simp_all add: eligible_def)
    from inv have tot: "0 < totalSize st" and mx: "totalSize st \<le> max_safe" and wf: "well_formed st"
      by (simp_all add: safe_state_def)
    from wf have c0: "contiguous_from 0 ?bs" and s0: "sum_list (map size_b ?bs) = totalSize st"
      and n0: "no_adjacent_free ?bs" and p0: "\<forall>b \<in> set ?bs. 0 < size_b b"
      and o0: "\<forall>b \<in> set ?bs. allocated b \<longleftrightarrow> id_b b \<noteq> None"
      by (simp_all add: well_formed_def)
    note w = well_formed_safe[OF wf mx]
    have bin: "?b \<in> set ?bs" using i by simp
    have lo: "0 \<le> start ?b" and up: "start ?b + size_b ?b \<le> max_safe" using w(2,3) bin by auto
    have ea: "num_add (start ?b) sz = start ?b + sz"
      using sz lo up fit by (intro num_add_exact) simp_all
    have es: "num_sub (size_b ?b) sz = size_b ?b - sz"
      using sz lo up fit by (intro num_sub_exact) simp_all
    have D: "?bs = ?pre @ ?b # ?post" using i by (rule id_take_nth_drop)
    have bl: "blocks st' = ?bs'" and ts: "totalSize st' = totalSize st"
      using allocate_some[OF se, of now] al i by (auto simp: upd_conv_take_nth_drop ea es)
    have idn: "id_b ?b = None" using o0 bin fr by blast
    have sub: "set ?pre \<subseteq> set ?bs" "set ?post \<subseteq> set ?bs"
      by (auto dest: in_set_takeD in_set_dropD)
    have c: "contiguous_from 0 ?bs'"
    proof -
      have "contiguous_from 0 (?pre @ ?b # ?post)" using c0 D by simp
      then show ?thesis by (auto simp add: contiguous_append algebra_simps)
    qed
    have s: "sum_list (map size_b ?bs') = totalSize st"
    proof -
      have "sum_list (map size_b (?pre @ ?b # ?post)) = totalSize st" using s0 D by simp
      then show ?thesis by simp
    qed
    have n: "no_adjacent_free ?bs'"
    proof -
      have h: "no_adjacent_free (?pre @ ?b # ?post)" using n0 D by simp
      show ?thesis
        using no_adjacent_free_occupy[OF h, of ?b1] no_adjacent_free_split[OF h, of ?n ?b2]
        by simp
    qed
    have p: "\<forall>b \<in> set ?bs'. 0 < size_b b"
      using p0 sub sz fit bin by auto
    have o: "\<forall>b \<in> set ?bs'. allocated b \<longleftrightarrow> id_b b \<noteq> None"
      using o0 sub fr idn by auto
    show ?thesis
      unfolding safe_state_def well_formed_def
      by (simp only: bl ts) (intro conjI tot mx c s n p o)
  qed
qed

lemma free_safe:
  assumes inv: "safe_state st"
  shows "safe_state (snd (free st aid))"
proof (cases "findIndex (\<lambda>b. id_b b = aid) (blocks st)")
  case None
  with inv show ?thesis by (simp add: free_def)
next
  case (Some i)
  let ?bs = "blocks st"
  let ?b = "?bs ! i" and ?pre = "take i ?bs" and ?post = "drop (Suc i) ?bs"
  let ?fb = "?b\<lparr> allocated := False, id_b := None \<rparr>"
  let ?bs1 = "?pre @ ?fb # ?post"
  from findIndex_Some[OF Some] have i: "i < length ?bs" by simp
  have D: "?bs = ?pre @ ?b # ?post" using i by (rule id_take_nth_drop)
  have st': "snd (free st aid) = st\<lparr> blocks := coalesce ?bs1, allocations := mark_freed aid (allocations st) \<rparr>"
    using Some i by (simp add: free_def mergeAdjacentFreeBlocks_coalesce upd_conv_take_nth_drop)
  from inv have tot: "0 < totalSize st" and mx: "totalSize st \<le> max_safe" and wf: "well_formed st"
    by (simp_all add: safe_state_def)
  from wf have c0: "contiguous_from 0 ?bs" and s0: "sum_list (map size_b ?bs) = totalSize st"
    and p0: "\<forall>b \<in> set ?bs. 0 < size_b b"
    and o0: "\<forall>b \<in> set ?bs. allocated b \<longleftrightarrow> id_b b \<noteq> None"
    by (simp_all add: well_formed_def)
  have bin: "?b \<in> set ?bs" using i by simp
  have sub: "set ?pre \<subseteq> set ?bs" "set ?post \<subseteq> set ?bs"
    by (auto dest: in_set_takeD in_set_dropD)
  have c1: "contiguous_from 0 ?bs1"
  proof -
    have "contiguous_from 0 (?pre @ ?b # ?post)" using c0 D by simp
    then show ?thesis by (auto simp add: contiguous_append)
  qed
  have s1: "sum_list (map size_b ?bs1) = totalSize st"
  proof -
    have "sum_list (map size_b (?pre @ ?b # ?post)) = totalSize st" using s0 D by simp
    then show ?thesis by simp
  qed
  have p1: "\<forall>b \<in> set ?bs1. 0 < size_b b" using p0 sub bin by auto
  have o1: "\<forall>b \<in> set ?bs1. allocated b \<longleftrightarrow> id_b b \<noteq> None" using o0 sub by auto
  have ss: "sizes_safe ?bs1" using p1 s1 mx by (auto simp: sizes_safe_def intro: less_imp_le)
  have c: "contiguous_from 0 (coalesce ?bs1)" using ss c1 by (rule coalesce_contiguous)
  have s: "sum_list (map size_b (coalesce ?bs1)) = totalSize st" using s1 coalesce_sum[OF ss] by simp
  have n: "no_adjacent_free (coalesce ?bs1)" by (rule coalesce_no_adjacent_free)
  have p: "\<forall>b \<in> set (coalesce ?bs1). 0 < size_b b" using ss p1 by (rule coalesce_positive)
  have o: "\<forall>b \<in> set (coalesce ?bs1). allocated b \<longleftrightarrow> id_b b \<noteq> None"
    using coalesce_owner[where P = "\<lambda>a x. a \<longleftrightarrow> x \<noteq> None" and bs = ?bs1] o1 by blast
  have bl: "blocks (snd (free st aid)) = coalesce ?bs1"
    and ts: "totalSize (snd (free st aid)) = totalSize st"
    by (simp_all add: st')
  show ?thesis
    unfolding safe_state_def well_formed_def
    by (simp only: bl ts) (intro conjI tot mx c s n p o)
qed

lemma relayout_triple_prop:
  "\<forall>b \<in> set bs. Q (triple b) \<Longrightarrow> \<forall>b \<in> set (relayout s bs). Q (triple b)"
  by (induction bs arbitrary: s) (auto simp: triple_def)

lemma relayout_ids_allocated:
  "map id_b (filter allocated (relayout s bs)) = map id_b (filter allocated bs)"
  by (induction bs arbitrary: s) auto

lemma defragment_sorted:
  assumes "safe_state st"
  shows "defragment st = st\<lparr> blocks := coalesce (relayout 0 (filter allocated (blocks st)
                                   @ filter (\<lambda>b. \<not> allocated b) (blocks st))) \<rparr>"
proof -
  from assms have mx: "totalSize st \<le> max_safe" and wf: "well_formed st"
    by (simp_all add: safe_state_def)
  note w = well_formed_safe[OF wf mx]
  have "sort_cmp (blocks st) = filter allocated (blocks st) @ filter (\<lambda>b. \<not> allocated b) (blocks st)"
    using w(4) w(2) by (rule sort_cmp_partition)
  then show ?thesis by (simp add: defragment_def mergeAdjacentFreeBlocks_coalesce)
qed

lemma defragment_safe:
  assumes inv: "safe_state st"
  shows "safe_state (defragment st)"
proof -
  let ?bs = "blocks st"
  let ?A = "filter allocated ?bs" and ?F = "filter (\<lambda>b. \<not> allocated b) ?bs"
  let ?R = "relayout 0 (?A @ ?F)"
  from inv have tot: "0 < totalSize st" and mx: "totalSize st \<le> max_safe" and wf: "well_formed st"
    by (simp_all add: safe_state_def)
  from wf have s0: "sum_list (map size_b ?bs) = totalSize st"
    and p0: "\<forall>b \<in> set ?bs. 0 < size_b b"
    and o0: "\<forall>b \<in> set ?bs. allocated b \<longleftrightarrow> id_b b \<noteq> None"
    by (simp_all add: well_formed_def)
  have st': "defragment st = st\<lparr> blocks := coalesce ?R \<rparr>" using inv by (rule defragment_sorted)
  have pA: "\<forall>b \<in> set (?A @ ?F). 0 < fst (triple b)"
    using p0 by (auto simp: triple_def)
  have oA: "\<forall>b \<in> set (?A @ ?F). fst (snd (triple b)) \<longleftrightarrow> snd (snd (triple b)) \<noteq> None"
    using o0 by (auto simp: triple_def)
  have p1: "\<forall>b \<in> set ?R. 0 < size_b b"
    using relayout_triple_prop[where Q = "\<lambda>t. 0 < fst t", OF pA, of 0]
    by (simp only: triple_def fst_conv)
  have o1: "\<forall>b \<in> set ?R. allocated b \<longleftrightarrow> id_b b \<noteq> None"
    using relayout_triple_prop[where Q = "\<lambda>t. fst (snd t) \<longleftrightarrow> snd (snd t) \<noteq> None", OF oA, of 0]
    by (simp only: triple_def fst_conv snd_conv)
  have s1: "sum_list (map size_b ?R) = totalSize st"
    using s0 sum_filter_partition[of size_b allocated ?bs] by (simp add: relayout_sizes)
  have ss: "sizes_safe ?R" using p1 s1 mx by (auto simp: sizes_safe_def intro: less_imp_le)
  have c: "contiguous_from 0 (coalesce ?R)"
    using defragment_contiguous[OF wf mx] by (simp add: st')
  have s: "sum_list (map size_b (coalesce ?R)) = totalSize st" using s1 coalesce_sum[OF ss] by simp
  have n: "no_adjacent_free (coalesce ?R)" by (rule coalesce_no_adjacent_free)
  have p: "\<forall>b \<in> set (coalesce ?R). 0 < size_b b" using ss p1 by (rule coalesce_positive)
  have o: "\<forall>b \<in> set (coalesce ?R). allocated b \<longleftrightarrow> id_b b \<noteq> None"
    using coalesce_owner[where P = "\<lambda>a x. a \<longleftrightarrow> x \<noteq> None" and bs = ?R] o1 by blast
  have bl: "blocks (defragment st) = coalesce ?R"
    and ts: "totalSize (defragment st) = totalSize st"
    by (simp_all add: st')
  show ?thesis
    unfolding safe_state_def well_formed_def
    by (simp only: bl ts) (intro conjI tot mx c s n p o)
qed

subsection \<open>Owner ids\<close>

lemma allocate_fresh:
  assumes wf: "well_formed st" and fo: "owners_fresh st"
      and n0: "0 < nextId st" and n1: "nextId st < max_safe"
      and al: "allocate st sz now = Some (Inr (r, st'))"
  shows "owners_fresh st' \<and> 0 < nextId st' \<and> nextId st' \<le> nextId st + 1"
proof -
  from allocate_cases[OF al] show ?thesis
  proof
    assume "st' = st" with fo n0 show ?thesis by simp
  next
    assume "\<exists>i. search st sz = Some (Inr (Some i))"
    then obtain i where se: "search st sz = Some (Inr (Some i))" by blast
    let ?bs = "blocks st" and ?nid = "nextId st"
    let ?b = "?bs ! i" and ?pre = "take i ?bs" and ?post = "drop (Suc i) ?bs"
    let ?b1 = "?b\<lparr> allocated := True, id_b := Some ?nid \<rparr>"
    let ?n = "\<lparr> start = start ?b, size_b = sz, allocated = True, id_b = Some ?nid \<rparr>"
    let ?b2 = "?b\<lparr> start := num_add (start ?b) sz, size_b := num_sub (size_b ?b) sz \<rparr>"
    let ?bs' = "if size_b ?b = sz then ?pre @ ?b1 # ?post else ?pre @ ?n # ?b2 # ?post"
    from search_some[OF se] have i: "i < length ?bs" and fr: "\<not> allocated ?b"
      by (simp_all add: eligible_def)
    have e1: "num_add ?nid 1 = ?nid + 1" using n0 n1 by (intro num_add_exact) simp_all
    have D: "?bs = ?pre @ ?b # ?post" using i by (rule id_take_nth_drop)
    have bl: "blocks st' = ?bs'" and ni: "nextId st' = ?nid + 1"
      using allocate_some[OF se, of now] al i by (auto simp: upd_conv_take_nth_drop e1)
    from wf have o0: "\<forall>b \<in> set ?bs. allocated b \<longleftrightarrow> id_b b \<noteq> None"
      by (simp add: well_formed_def)
    from fo have d0: "distinct (map id_b (filter allocated ?bs))"
      and f0: "\<forall>b \<in> set ?bs. \<forall>k. id_b b = Some k \<longrightarrow> k < ?nid"
      by (simp_all add: owners_fresh_def)
    have bin: "?b \<in> set ?bs" using i by simp
    have idn: "id_b ?b = None" using o0 bin fr by blast
    have sub: "set ?pre \<subseteq> set ?bs" "set ?post \<subseteq> set ?bs"
      by (auto dest: in_set_takeD in_set_dropD)
    have fa: "filter allocated ?bs' = filter allocated ?pre @ (if size_b ?b = sz then ?b1 else ?n) # filter allocated ?post"
      using fr by simp
    have fa0: "filter allocated ?bs = filter allocated ?pre @ filter allocated ?post"
    proof -
      have "filter allocated (?pre @ ?b # ?post) = filter allocated ?pre @ filter allocated ?post"
        using fr by simp
      then show ?thesis using D by simp
    qed
    have fresh: "Some ?nid \<notin> id_b ` set ?bs" using f0 by force
    have d: "distinct (map id_b (filter allocated ?bs'))"
    proof -
      have "distinct (map id_b (filter allocated ?pre) @ map id_b (filter allocated ?post))"
        using d0 fa0 by simp
      moreover have "Some ?nid \<notin> set (map id_b (filter allocated ?pre))"
                    "Some ?nid \<notin> set (map id_b (filter allocated ?post))"
        using fresh sub by auto
      ultimately show ?thesis by (auto simp add: fa)
    qed
    have f: "\<forall>b \<in> set ?bs'. \<forall>k. id_b b = Some k \<longrightarrow> k < ?nid + 1"
    proof -
      have "\<forall>b \<in> set ?pre \<union> set ?post. \<forall>k. id_b b = Some k \<longrightarrow> k < ?nid + 1"
        using f0 sub by fastforce
      then show ?thesis using idn by auto
    qed
    have "owners_fresh st'" unfolding owners_fresh_def by (simp only: bl ni) (intro conjI d f)
    then show ?thesis using ni n0 by simp
  qed
qed

lemma free_fresh:
  assumes fo: "owners_fresh st"
  shows "owners_fresh (snd (free st aid)) \<and> nextId (snd (free st aid)) = nextId st"
proof (cases "findIndex (\<lambda>b. id_b b = aid) (blocks st)")
  case None
  with fo show ?thesis by (simp add: free_def)
next
  case (Some i)
  let ?bs = "blocks st" and ?nid = "nextId st"
  let ?b = "?bs ! i" and ?pre = "take i ?bs" and ?post = "drop (Suc i) ?bs"
  let ?fb = "?b\<lparr> allocated := False, id_b := None \<rparr>"
  let ?bs1 = "?pre @ ?fb # ?post"
  from findIndex_Some[OF Some] have i: "i < length ?bs" by simp
  have D: "?bs = ?pre @ ?b # ?post" using i by (rule id_take_nth_drop)
  have st': "snd (free st aid) = st\<lparr> blocks := coalesce ?bs1, allocations := mark_freed aid (allocations st) \<rparr>"
    using Some i by (simp add: free_def mergeAdjacentFreeBlocks_coalesce upd_conv_take_nth_drop)
  from fo have d0: "distinct (map id_b (filter allocated ?bs))"
    and f0: "\<forall>b \<in> set ?bs. \<forall>k. id_b b = Some k \<longrightarrow> k < ?nid"
    by (simp_all add: owners_fresh_def)
  have sub: "set ?pre \<subseteq> set ?bs" "set ?post \<subseteq> set ?bs"
    by (auto dest: in_set_takeD in_set_dropD)
  have f1: "\<forall>b \<in> set ?bs1. \<forall>k. id_b b = Some k \<longrightarrow> k < ?nid" using f0 sub by auto
  have d1: "distinct (map id_b (filter allocated ?bs1))"
  proof -
    have "distinct (map id_b (filter allocated (?pre @ ?b # ?post)))" using d0 D by simp
    then show ?thesis by (auto split: if_splits)
  qed
  have f: "\<forall>b \<in> set (coalesce ?bs1). \<forall>k. id_b b = Some k \<longrightarrow> k < ?nid"
    using coalesce_owner[where P = "\<lambda>a x. \<forall>k. x = Some k \<longrightarrow> k < ?nid" and bs = ?bs1] f1 by blast
  have d: "distinct (map id_b (filter allocated (coalesce ?bs1)))"
    using d1 by (simp only: coalesce_filter_allocated)
  have bl: "blocks (snd (free st aid)) = coalesce ?bs1" and ni: "nextId (snd (free st aid)) = ?nid"
    by (simp_all add: st')
  have "owners_fresh (snd (free st aid))"
    unfolding owners_fresh_def by (simp only: bl ni) (intro conjI d f)
  then show ?thesis using ni by simp
qed

lemma defragment_fresh:
  assumes inv: "safe_state st" and fo: "owners_fresh st"
  shows "owners_fresh (defragment st) \<and> nextId (defragment st) = nextId st"
proof -
  let ?bs = "blocks st" and ?nid = "nextId st"
  let ?A = "filter allocated ?bs" and ?F = "filter (\<lambda>b. \<not> allocated b) ?bs"
  let ?R = "relayout 0 (?A @ ?F)"
  have st': "defragment st = st\<lparr> blocks := coalesce ?R \<rparr>" using inv by (rule defragment_sorted)
  from fo have d0: "distinct (map id_b (filter allocated ?bs))"
    and f0: "\<forall>b \<in> set ?bs. \<forall>k. id_b b = Some k \<longrightarrow> k < ?nid"
    by (simp_all add: owners_fresh_def)
  have fA: "\<forall>b \<in> set (?A @ ?F). \<forall>k. snd (snd (triple b)) = Some k \<longrightarrow> k < ?nid"
    using f0 by (auto simp: triple_def)
  have f1: "\<forall>b \<in> set ?R. \<forall>k. id_b b = Some k \<longrightarrow> k < ?nid"
    using relayout_triple_prop[where Q = "\<lambda>t. \<forall>k. snd (snd t) = Some k \<longrightarrow> k < ?nid", OF fA, of 0]
    by (simp only: triple_def fst_conv snd_conv)
  have d1: "distinct (map id_b (filter allocated ?R))"
    using d0 by (simp add: relayout_ids_allocated)
  have f: "\<forall>b \<in> set (coalesce ?R). \<forall>k. id_b b = Some k \<longrightarrow> k < ?nid"
    using coalesce_owner[where P = "\<lambda>a x. \<forall>k. x = Some k \<longrightarrow> k < ?nid" and bs = ?R] f1 by blast
  have d: "distinct (map id_b (filter allocated (coalesce ?R)))"
    using d1 by (simp only: coalesce_filter_allocated)
  have bl: "blocks (defragment st) = coalesce ?R" and ni: "nextId (defragment st) = ?nid"
    by (simp_all add: st')
  have "owners_fresh (defragment st)"
    unfolding owners_fresh_def by (simp only: bl ni) (intro conjI d f)
  then show ?thesis using ni by simp
qed

section \<open>Sequences of calls\<close>

lemma nextFit_returns: "\<exists>r. nextFit st sz = Some r"
proof (cases "lastSearchIndex st < length (blocks st)")
  case True
  then have "0 < length (blocks st)" by arith
  from nextFit_loop_circular[OF True this, of sz] True show ?thesis by (simp add: nextFit_def)
next
  case False
  from nextFit_out_of_range[OF this] show ?thesis by simp
qed

lemma search_returns: "\<exists>r. search st sz = Some r"
  using nextFit_returns[of st sz] by (simp add: search_def)

lemma allocate_returns: "\<exists>r. allocate st sz now = Some r"
proof -
  obtain r where r: "search st sz = Some r" using search_returns by blast
  show ?thesis
  proof (cases r)
    case (Inl e)
    with r show ?thesis by (simp add: allocate_def)
  next
    case (Inr found)
    with r show ?thesis by (cases found) (simp_all add: allocate_def Let_def)
  qed
qed

lemma step_returns: "\<exists>r st'. step st c = Some (r, st')"
proof (cases c)
  case (Allocate sz now)
  obtain r where "allocate st sz now = Some r" using allocate_returns by blast
  with Allocate show ?thesis by (cases r) auto
next
  case (Free aid)
  then show ?thesis by (cases "free st aid") simp
next
  case (GetStats lim)
  then show ?thesis by (cases "getStats st lim") simp_all
qed simp_all

lemma step_safe:
  assumes "safe_state st" and "valid_call c" and "step st c = Some (r, st')"
  shows "safe_state st'"
proof (cases c)
  case (Allocate sz now)
  with assms(3) show ?thesis
    using allocate_safe[OF assms(1), of sz now] assms(1,2)
    by (auto split: option.splits sum.splits)
next
  case (Free aid)
  with assms(3) free_safe[OF assms(1), of aid] show ?thesis by (auto split: prod.splits)
next
  case Defragment
  with assms(3) defragment_safe[OF assms(1)] show ?thesis by auto
next
  case (GetStats lim)
  with assms show ?thesis by (auto split: sum.splits)
next
  case (Reset k)
  with assms(3) reset_safe[OF assms(1), of k] assms(2) show ?thesis by auto
next
  case (SetStrategy s)
  with assms(3) setStrategy_safe[OF assms(1), of s] show ?thesis by auto
qed

lemma run_safe:
  "safe_state st \<Longrightarrow> \<forall>c \<in> set cs. valid_call c \<Longrightarrow> \<exists>st'. run st cs = Some st' \<and> safe_state st'"
proof (induction cs arbitrary: st)
  case Nil
  then show ?case by simp
next
  case (Cons c cs)
  obtain r st1 where s: "step st c = Some (r, st1)" using step_returns by blast
  have "safe_state st1" using step_safe[OF Cons.prems(1) _ s] Cons.prems(2) by simp
  from Cons.IH[OF this] Cons.prems(2) s show ?case by simp
qed

text \<open>The owner ids stay pairwise different as long as the counter of ids stays within
  the safe integers, which it does for fewer than \<open>2 ^ 53\<close> calls.\<close>

lemma step_inv:
  assumes "state_inv st" and "valid_call c" and "nextId st < max_safe"
      and "step st c = Some (r, st')"
  shows "state_inv st' \<and> nextId st' \<le> nextId st + 1"
proof -
  from assms(1) have sa: "safe_state st" and fo: "owners_fresh st" and n0: "0 < nextId st"
    by (simp_all add: state_inv_def)
  then have wf: "well_formed st" by (simp add: safe_state_def)
  have sa': "safe_state st'" using step_safe[OF sa assms(2,4)] .
  have "owners_fresh st' \<and> 0 < nextId st' \<and> nextId st' \<le> nextId st + 1"
  proof (cases c)
    case (Allocate sz now)
    with assms(4) show ?thesis
      using allocate_fresh[OF wf fo n0 assms(3), of sz now] fo n0
      by (auto split: option.splits sum.splits)
  next
    case (Free aid)
    with assms(4) free_fresh[OF fo, of aid] n0 show ?thesis by (auto split: prod.splits)
  next
    case Defragment
    with assms(4) defragment_fresh[OF sa fo] n0 show ?thesis by auto
  next
    case (GetStats lim)
    with assms(4) fo n0 show ?thesis by (auto split: sum.splits)
  next
    case (Reset k)
    with assms(4) n0 show ?thesis by (auto simp: reset_def Let_def owners_fresh_def)
  next
    case (SetStrategy s)
    with assms(4) fo n0 show ?thesis by (auto simp: setStrategy_def owners_fresh_def)
  qed
  with sa' show ?thesis by (simp add: state_inv_def)
qed

lemma run_inv:
  "state_inv st \<Longrightarrow> \<forall>c \<in> set cs. valid_call c \<Longrightarrow> nextId st + int (length cs) \<le> max_safe
     \<Longrightarrow> \<exists>st'. run st cs = Some st' \<and> state_inv st'"
proof (induction cs arbitrary: st)
  case Nil
  then show ?case by simp
next
  case (Cons c cs)
  obtain r st1 where s: "step st c = Some (r, st1)" using step_returns by blast
  have lt: "nextId st < max_safe" using Cons.prems(3) by simp
  have "state_inv st1 \<and> nextId st1 \<le> nextId st + 1"
    using step_inv[OF Cons.prems(1) _ lt s] Cons.prems(2) by simp
  then have i: "state_inv st1" and b: "nextId st1 + int (length cs) \<le> max_safe"
    using Cons.prems(3) by simp_all
  from Cons.IH[OF i _ b] Cons.prems(2) s show ?case by simp
qed

lemma constructor_inv: "0 < n \<Longrightarrow> n \<le> max_safe \<Longrightarrow> state_inv (constructor n)"
  using constructor_safe[of n] by (simp add: state_inv_def) (simp add: owners_fresh_def constructor_def)

text \<open>
  C1, within the safe integers. From the initial state of an allocator whose size is
  positive and at most \<open>2 ^ 53 - 1\<close>, every finite sequence of calls (\<open>allocate\<close> with a
  positive size, \<open>free\<close>, \<open>defragment\<close>, \<open>reset\<close> to a size of at most \<open>2 ^ 53 - 1\<close>, and
  also \<open>setStrategy\<close> and \<open>getStats\<close>) runs to a state whose block list is not empty, starts
  at 0, is contiguous (each block ends where the next starts), has sizes that sum to the
  total size, has no two adjacent free blocks, and has positive sizes only. A call that
  throws leaves the state as it was.
\<close>

theorem invariant_preserved:
  assumes "0 < n" and "n \<le> max_safe" and "\<forall>c \<in> set cs. valid_call c"
  shows "\<exists>st. run (constructor n) cs = Some st
           \<and> blocks st \<noteq> []
           \<and> start (hd (blocks st)) = 0
           \<and> (\<forall>i. i + 1 < length (blocks st) \<longrightarrow>
                  start (blocks st ! i) + size_b (blocks st ! i) = start (blocks st ! (i + 1)))
           \<and> sum_list (map size_b (blocks st)) = totalSize st
           \<and> (\<forall>i. i + 1 < length (blocks st) \<longrightarrow>
                  allocated (blocks st ! i) \<or> allocated (blocks st ! (i + 1)))
           \<and> (\<forall>b \<in> set (blocks st). 0 < size_b b)"
proof -
  from run_safe[OF constructor_safe[OF assms(1,2)] assms(3)]
  obtain st where r: "run (constructor n) cs = Some st" and i: "safe_state st" by blast
  from i have tot: "0 < totalSize st"
    and c: "contiguous_from 0 (blocks st)" and s: "sum_list (map size_b (blocks st)) = totalSize st"
    and na: "no_adjacent_free (blocks st)" and p: "\<forall>b \<in> set (blocks st). 0 < size_b b"
    by (simp_all add: safe_state_def well_formed_def)
  have ne: "blocks st \<noteq> []" using tot s by auto
  have h: "start (hd (blocks st)) = 0" using c ne by (cases "blocks st") auto
  have ci: "\<forall>i. i + 1 < length (blocks st) \<longrightarrow>
                  start (blocks st ! i) + size_b (blocks st ! i) = start (blocks st ! (i + 1))"
    using contiguous_index[OF c] by blast
  have ni: "\<forall>i. i + 1 < length (blocks st) \<longrightarrow>
                  allocated (blocks st ! i) \<or> allocated (blocks st ! (i + 1))"
    using no_adjacent_free_index[OF na] by blast
  show ?thesis using r ne h ci s ni p by blast
qed

theorem invariant_preserved_witness:
  "(0::int) < 100 \<and> 100 \<le> max_safe
   \<and> run (constructor 100)
         [SetStrategy ''next-fit'', Allocate 10 0, Allocate 20 0, Allocate 30 0, Free (Some 2)]
       = Some ex_state
   \<and> blocks ex_state \<noteq> []
   \<and> start (hd (blocks ex_state)) = 0
   \<and> sum_list (map size_b (blocks ex_state)) = totalSize ex_state
   \<and> start (blocks ex_state ! 1) + size_b (blocks ex_state ! 1) = start (blocks ex_state ! 2)"
proof -
  let ?cs = "[SetStrategy ''next-fit'', Allocate 10 0, Allocate 20 0, Allocate 30 0, Free (Some 2)]"
  have v: "\<forall>c \<in> set ?cs. valid_call c" by simp
  have r: "run (constructor 100) ?cs = Some ex_state" by code_simp
  have z: "(0::int) < 100" by simp
  have m: "100 \<le> max_safe" by (simp add: max_safe_def)
  have l: "1 + 1 < length (blocks ex_state)" by (simp add: ex_state_def)
  from invariant_preserved[OF z m v] obtain st where
    a: "run (constructor 100) ?cs = Some st" and b: "blocks st \<noteq> []"
    and c: "start (hd (blocks st)) = 0"
    and d: "\<forall>i. i + 1 < length (blocks st) \<longrightarrow>
                  start (blocks st ! i) + size_b (blocks st ! i) = start (blocks st ! (i + 1))"
    and e: "sum_list (map size_b (blocks st)) = totalSize st"
    by blast
  from a r have st: "st = ex_state" by simp
  from d l have "start (blocks ex_state ! 1) + size_b (blocks ex_state ! 1)
                   = start (blocks ex_state ! (1 + 1))"
    unfolding st by blast
  then have f: "start (blocks ex_state ! 1) + size_b (blocks ex_state ! 1) = start (blocks ex_state ! 2)"
    by (simp only: one_add_one)
  show ?thesis using z m r b c e f unfolding st by blast
qed

text \<open>
  Beyond the safe integers the invariant fails: on an allocator of \<open>2 ^ 53 + 2\<close> bytes,
  \<^verbatim>\<open>allocate(1)\<close> leaves blocks of 1 and of \<open>2 ^ 53\<close> bytes, since \<open>2 ^ 53 + 1\<close> is not a
  double; the sizes no longer sum to the total size.
\<close>

theorem invariant_preserved_counterexample:
  "\<exists>st. run (constructor 9007199254740994) [Allocate 1 0] = Some st
        \<and> map size_b (blocks st) = [1, 9007199254740992]
        \<and> totalSize st = 9007199254740994
        \<and> sum_list (map size_b (blocks st)) \<noteq> totalSize st"
proof -
  let ?st = "\<lparr> totalSize = 9007199254740994,
       blocks = [\<lparr> start = 0, size_b = 1, allocated = True, id_b = Some 1 \<rparr>,
                 \<lparr> start = 1, size_b = 9007199254740992, allocated = False, id_b = None \<rparr>],
       allocations = [\<lparr> id_a = 1, size_a = 1, freed = False, timestamp = 0 \<rparr>],
       nextId = 2, strategy = ''first-fit'', lastSearchIndex = 0 \<rparr>"
  have r: "run (constructor 9007199254740994) [Allocate 1 0] = Some ?st" by code_simp
  show ?thesis using r by (intro exI[of _ ?st]) simp
qed

text \<open>
  C3. Every call returns or throws, in every state: the scan of next-fit, which is the only
  loop without a bound on its rounds, yields a result for every block list and cursor, and
  so does every call and every finite sequence of calls. The other loops (best-fit,
  worst-fit, coalescing) are total functions with a decreasing measure.
\<close>

theorem every_call_returns:
  "(\<exists>r st'. step st c = Some (r, st')) \<and> (\<exists>r. nextFit st sz = Some r)
   \<and> (\<exists>st'. run st cs = Some st')"
proof -
  have "\<exists>st'. run st cs = Some st'"
  proof (induction cs arbitrary: st)
    case Nil then show ?case by simp
  next
    case (Cons c cs)
    obtain r st1 where "step st c = Some (r, st1)" using step_returns by blast
    with Cons.IH[of st1] show ?case by simp
  qed
  with step_returns nextFit_returns show ?thesis by blast
qed

text \<open>
  C2 fails on the code. After \<^verbatim>\<open>setStrategy('next-fit')\<close>, three allocations of 10 bytes and
  the release of the third and the second, the block list has two blocks and the cursor is
  still 2: \<open>free\<close> shortens the list and leaves the cursor alone. The next \<open>allocate\<close> reads
  \<^verbatim>\<open>this.blocks[2]\<close>, which is \<^verbatim>\<open>undefined\<close>, and throws a TypeError.
\<close>

theorem cursor_out_of_range:
  "\<exists>st. run (constructor 100)
            [SetStrategy ''next-fit'', Allocate 10 0, Allocate 10 0, Allocate 10 0,
             Free (Some 3), Free (Some 2)] = Some st
        \<and> strategy st = ''next-fit''
        \<and> length (blocks st) = 2
        \<and> lastSearchIndex st = 2
        \<and> nextFit st 10 = Some (Inl TypeError)
        \<and> step st (Allocate 10 0) = Some (Threw TypeError, st)"
proof -
  let ?cs = "[SetStrategy ''next-fit'', Allocate 10 0, Allocate 10 0, Allocate 10 0,
             Free (Some 3), Free (Some 2)]"
  let ?st = "\<lparr> totalSize = 100,
       blocks = [\<lparr> start = 0, size_b = 10, allocated = True, id_b = Some 1 \<rparr>,
                 \<lparr> start = 10, size_b = 90, allocated = False, id_b = None \<rparr>],
       allocations = [\<lparr> id_a = 1, size_a = 10, freed = False, timestamp = 0 \<rparr>,
                      \<lparr> id_a = 2, size_a = 10, freed = True, timestamp = 0 \<rparr>,
                      \<lparr> id_a = 3, size_a = 10, freed = True, timestamp = 0 \<rparr>],
       nextId = 4, strategy = ''next-fit'', lastSearchIndex = 2 \<rparr>"
  have r: "run (constructor 100) ?cs = Some ?st" by code_simp
  have n: "nextFit ?st 10 = Some (Inl TypeError)" by (rule nextFit_out_of_range) simp
  then have s: "step ?st (Allocate 10 0) = Some (Threw TypeError, ?st)"
    by (simp add: allocate_def search_def)
  show ?thesis using r n s by (intro exI[of _ ?st]) simp
qed

text \<open>
  C4 fails on the code, by the stale cursor of C2. The state reached there is well formed
  (its blocks are contiguous from 0, their sizes are positive and sum to the total size, no
  two adjacent blocks are free, and exactly the allocated blocks carry an owner id); its
  blocks are an allocated one of 10 bytes and a free one of 90 bytes, so no block can serve a
  request of 95 bytes; under next-fit, with the cursor at 2, \<open>allocate\<close> does not return
  \<^verbatim>\<open>null\<close> but throws a TypeError. Under first-fit, in the same state, it returns \<^verbatim>\<open>null\<close>
  and changes nothing.
\<close>

theorem allocate_out_of_memory_throws:
  "\<exists>st. run (constructor 100)
            [SetStrategy ''next-fit'', Allocate 10 0, Allocate 10 0, Allocate 10 0,
             Free (Some 3), Free (Some 2)] = Some st
        \<and> contiguous_from 0 (blocks st)
        \<and> sum_list (map size_b (blocks st)) = totalSize st
        \<and> no_adjacent_free (blocks st)
        \<and> list_all (\<lambda>b. 0 < size_b b) (blocks st)
        \<and> list_all (\<lambda>b. allocated b = (id_b b \<noteq> None)) (blocks st)
        \<and> totalSize st = 100
        \<and> blocks st = [\<lparr> start = 0, size_b = 10, allocated = True, id_b = Some 1 \<rparr>,
                        \<lparr> start = 10, size_b = 90, allocated = False, id_b = None \<rparr>]
        \<and> strategy st = ''next-fit''
        \<and> lastSearchIndex st = 2
        \<and> list_all (\<lambda>b. \<not> eligible 95 b) (blocks st)
        \<and> allocate st 95 0 = Some (Inl TypeError)
        \<and> allocate (st\<lparr> strategy := ''first-fit'' \<rparr>) 95 0
              = Some (Inr (None, st\<lparr> strategy := ''first-fit'' \<rparr>))"
proof -
  let ?cs = "[SetStrategy ''next-fit'', Allocate 10 0, Allocate 10 0, Allocate 10 0,
             Free (Some 3), Free (Some 2)]"
  let ?st = "\<lparr> totalSize = 100,
       blocks = [\<lparr> start = 0, size_b = 10, allocated = True, id_b = Some 1 \<rparr>,
                 \<lparr> start = 10, size_b = 90, allocated = False, id_b = None \<rparr>],
       allocations = [\<lparr> id_a = 1, size_a = 10, freed = False, timestamp = 0 \<rparr>,
                      \<lparr> id_a = 2, size_a = 10, freed = True, timestamp = 0 \<rparr>,
                      \<lparr> id_a = 3, size_a = 10, freed = True, timestamp = 0 \<rparr>],
       nextId = 4, strategy = ''next-fit'', lastSearchIndex = 2 \<rparr>"
  have r: "run (constructor 100) ?cs = Some ?st" by code_simp
  have n: "nextFit ?st 95 = Some (Inl TypeError)" by (rule nextFit_out_of_range) simp
  then have a: "allocate ?st 95 0 = Some (Inl TypeError)"
    by (simp add: allocate_def search_def)
  have e: "\<forall>b \<in> set (blocks (?st\<lparr> strategy := ''first-fit'' \<rparr>)). \<not> eligible 95 b"
    by (simp add: eligible_def)
  have f: "allocate (?st\<lparr> strategy := ''first-fit'' \<rparr>) 95 0
              = Some (Inr (None, ?st\<lparr> strategy := ''first-fit'' \<rparr>))"
    by (rule allocate_out_of_memory_in_range[OF e]) simp
  have l: "list_all (\<lambda>b. \<not> eligible 95 b) (blocks ?st)" by (simp add: eligible_def)
  show ?thesis using r a f l by (intro exI[of _ ?st]) simp
qed

section \<open>Statistics\<close>

lemma fold_num_add:
  "0 \<le> a \<Longrightarrow> \<forall>b \<in> set bs. 0 \<le> size_b b \<Longrightarrow> a + sum_list (map size_b bs) \<le> max_safe
     \<Longrightarrow> fold (\<lambda>b sum. num_add sum (size_b b)) bs a = a + sum_list (map size_b bs)"
proof (induction bs arbitrary: a)
  case Nil then show ?case by simp
next
  case (Cons x xs)
  have n: "0 \<le> sum_list (map size_b xs)" using Cons.prems(2) by (intro sum_sizes_nonneg) simp
  have e: "num_add a (size_b x) = a + size_b x"
    using Cons.prems n by (intro num_add_exact) simp_all
  show ?case using Cons.IH[of "a + size_b x"] Cons.prems by (simp add: e algebra_simps)
qed

lemma sum_sizes_exact: "sizes_safe bs \<Longrightarrow> sum_sizes bs = sum_list (map size_b bs)"
  using fold_num_add[of 0 bs] by (simp add: sizes_safe_def sum_sizes_def)

lemma member_le_sum:
  "\<forall>x \<in> set xs. (0::int) \<le> x \<Longrightarrow> y \<in> set xs \<Longrightarrow> y \<le> sum_list xs"
proof (induction xs)
  case Nil then show ?case by simp
next
  case (Cons x xs)
  have "0 \<le> sum_list xs" using Cons.prems(1) by (simp add: sum_list_nonneg)
  then show ?case using Cons by auto
qed

lemma fragmentation_error:
  fixes q q1 r :: rat
  assumes "0 \<le> q" and "\<bar>q1 - q\<bar> \<le> q / 2 ^ 53" and "\<bar>r - q1 * 100\<bar> \<le> q1 * 100 / 2 ^ 53"
  shows "\<bar>r - q * 100\<bar> \<le> q * 100 / 2 ^ 51"
proof -
  from assms(2) have a: "q1 - q \<le> q / 2 ^ 53" "- (q1 - q) \<le> q / 2 ^ 53"
    unfolding abs_le_iff by blast+
  from assms(3) have b: "r - q1 * 100 \<le> q1 * 100 / 2 ^ 53" "- (r - q1 * 100) \<le> q1 * 100 / 2 ^ 53"
    unfolding abs_le_iff by blast+
  have "r - q * 100 \<le> q * 100 / 2 ^ 51" using a b assms(1) by (simp add: field_simps)
  moreover have "- (r - q * 100) \<le> q * 100 / 2 ^ 51" using a b assms(1) by (simp add: field_simps)
  ultimately show ?thesis unfolding abs_le_iff by blast
qed

lemma tiny_le: "(2::rat) powi (- 1022) \<le> 1 / 2 ^ 54"
proof -
  have "(2::rat) powi (- 1022) \<le> 2 powi (- 54)" by (intro power_int_increasing) simp_all
  also have "(2::rat) powi (- 54) = 1 / 2 ^ 54" by (simp add: power_int_minus inverse_eq_divide)
  finally show ?thesis .
qed

lemma fl_rat_zero: "fl_rat 0 = 0"
  by (simp add: fl_rat_def)

lemma quotient_rounding:
  assumes "0 \<le> a" and "a \<le> b" and "0 < b" and "b \<le> max_safe"
  shows "\<bar>num_mul (num_div a b) 100 - of_int a / of_int b * 100\<bar> \<le> of_int a / of_int b * 100 / 2 ^ 51"
proof (cases "a = 0")
  case True
  then show ?thesis by (simp add: num_div_def num_mul_def fl_rat_zero)
next
  case False
  define q :: rat where "q = of_int a / of_int b"
  define q1 where "q1 = fl_rat q"
  have a1: "1 \<le> a" using False assms(1) by simp
  have bp: "(0::rat) < of_int b" using assms(3) by simp
  have bm: "(of_int b :: rat) \<le> 2 ^ 53"
  proof -
    have "b \<le> 2 ^ 53" using assms(4) by (simp add: max_safe_def)
    then have "(of_int b :: rat) \<le> of_int (2 ^ 53)" by (simp only: of_int_le_iff)
    then show ?thesis by simp
  qed
  have "(1::rat) / 2 ^ 53 \<le> 1 / of_int b" using bp bm by (simp add: frac_le)
  also have "\<dots> \<le> q" unfolding q_def using a1 bp by (simp add: divide_right_mono)
  finally have ql: "(1::rat) / 2 ^ 53 \<le> q" .
  then have q0: "0 \<le> q" by (rule order_trans[rotated]) simp
  have "(2::rat) powi (- 1022) \<le> q" using tiny_le ql by simp
  from fl_rat_error[OF this] have e1: "\<bar>q1 - q\<bar> \<le> q / 2 ^ 53" by (simp add: q1_def)
  then have "q - q / 2 ^ 53 \<le> q1" unfolding abs_le_iff by simp
  then have "(1::rat) / 2 ^ 54 \<le> q1" using ql by simp
  then have "(2::rat) powi (- 1022) \<le> q1 * 100" using tiny_le by simp
  from fl_rat_error[OF this] have e2: "\<bar>fl_rat (q1 * 100) - q1 * 100\<bar> \<le> q1 * 100 / 2 ^ 53" .
  from fragmentation_error[OF q0 e1 e2] show ?thesis
    by (simp add: num_mul_def num_div_def q1_def q_def)
qed

lemma stats_sums:
  assumes "well_formed st" and "totalSize st \<le> max_safe"
  shows "sum_sizes (filter (\<lambda>b. \<not> allocated b) (blocks st)) = free_bytes st"
    and "sum_sizes (filter allocated (blocks st)) = allocated_bytes st"
    and "0 \<le> free_bytes st" and "free_bytes st \<le> max_safe"
proof -
  note w = well_formed_safe[OF assms]
  have nn: "\<forall>b \<in> set (blocks st). 0 \<le> size_b b" using w(1) by (simp add: sizes_safe_def)
  have tot: "allocated_bytes st + free_bytes st \<le> max_safe"
    using w(1) sum_filter_partition[of size_b allocated "blocks st"]
    by (simp add: sizes_safe_def allocated_bytes_def free_bytes_def)
  have fn: "0 \<le> free_bytes st" "0 \<le> allocated_bytes st"
    using nn by (auto simp: free_bytes_def allocated_bytes_def intro!: sum_sizes_nonneg)
  have "sizes_safe (filter (\<lambda>b. \<not> allocated b) (blocks st))"
    using nn tot fn by (simp add: sizes_safe_def free_bytes_def)
  then show "sum_sizes (filter (\<lambda>b. \<not> allocated b) (blocks st)) = free_bytes st"
    by (simp add: sum_sizes_exact free_bytes_def)
  have "sizes_safe (filter allocated (blocks st))"
    using nn tot fn by (simp add: sizes_safe_def allocated_bytes_def)
  then show "sum_sizes (filter allocated (blocks st)) = allocated_bytes st"
    by (simp add: sum_sizes_exact allocated_bytes_def)
  show "0 \<le> free_bytes st" by (rule fn)
  show "free_bytes st \<le> max_safe" using tot fn by simp
qed

lemma largest_bounds:
  assumes "well_formed st"
  shows "0 \<le> largest_free_block st" and "largest_free_block st \<le> free_bytes st"
proof -
  let ?F = "filter (\<lambda>b. \<not> allocated b) (blocks st)"
  have pos: "\<forall>x \<in> set (map size_b ?F). 0 \<le> x" using assms by (auto simp: well_formed_def intro: less_imp_le)
  show "0 \<le> largest_free_block st"
  proof (cases "?F = []")
    case True then show ?thesis by (simp add: largest_free_block_def)
  next
    case False
    then have "set (map size_b ?F) \<noteq> {}" by (simp only: set_empty map_is_Nil_conv not_False_eq_True)
    then have "Max (set (map size_b ?F)) \<in> set (map size_b ?F)" by (rule Max_in[OF finite_set])
    with pos have "0 \<le> Max (set (map size_b ?F))" by blast
    with False show ?thesis by (simp only: largest_free_block_def if_False)
  qed
  show "largest_free_block st \<le> free_bytes st"
  proof (cases "?F = []")
    case True then show ?thesis by (simp add: largest_free_block_def free_bytes_def)
  next
    case False
    then have "set (map size_b ?F) \<noteq> {}" by (simp only: set_empty map_is_Nil_conv not_False_eq_True)
    then have "Max (set (map size_b ?F)) \<in> set (map size_b ?F)" by (rule Max_in[OF finite_set])
    from member_le_sum[OF pos this] False show ?thesis
      by (simp only: largest_free_block_def free_bytes_def if_False)
  qed
qed

lemma getStats_argument_limit:
  assumes "argLimit < length (filter (\<lambda>b. \<not> allocated b) (blocks st))"
  shows "getStats st argLimit = Inl RangeError"
  using assms unfolding getStats_def Let_def by auto

text \<open>
  C9, as the code has it. In every well-formed state whose total size is a safe integer,
  with no more free blocks than the engine accepts as arguments of one call, \<open>getStats\<close>
  returns; its fragmentation figure is 0 when the free bytes are 0, and otherwise the
  double that \<^verbatim>\<open>((free - largest) / free) * 100\<close> computes: the quotient of the free bytes
  less the largest free block (the maximum size of a free block) by the free bytes, rounded
  to the nearest double, times 100, rounded again. The figure differs from the exact value
  of that formula by at most the \<open>2 ^ 51\<close>-th part of the exact value. Free blocks of 10 and
  20 bytes give 33.33333333333333 (33.33 to two places), a single free block gives 0.
\<close>

theorem getStats_fragmentation:
  assumes "well_formed st" and "totalSize st \<le> max_safe"
      and "length (filter (\<lambda>b. \<not> allocated b) (blocks st)) \<le> argLimit"
  shows "\<exists>s. getStats st argLimit = Inr s
           \<and> fragmentation s =
               (if free_bytes st = 0 then 0
                else num_mul (num_div (free_bytes st - largest_free_block st) (free_bytes st)) 100)
           \<and> \<bar>fragmentation s - fragmentation_exact st\<bar> \<le> fragmentation_exact st / 2 ^ 51"
proof -
  let ?F = "filter (\<lambda>b. \<not> allocated b) (blocks st)"
  let ?frag = "if free_bytes st = 0 then 0
               else num_mul (num_div (free_bytes st - largest_free_block st) (free_bytes st)) 100"
  note ss = stats_sums[OF assms(1,2)] and lb = largest_bounds[OF assms(1)]
  have l: "(case map size_b ?F of [] \<Rightarrow> 0 | x # xs \<Rightarrow> fold max xs x) = largest_free_block st"
  proof (cases ?F)
    case Nil then show ?thesis by (simp add: largest_free_block_def)
  next
    case (Cons f fs)
    then show ?thesis
      using Max.set_eq_fold[of "size_b f" "map size_b fs"] by (simp add: largest_free_block_def)
  qed
  have z: "0 < free_bytes st \<longleftrightarrow> free_bytes st \<noteq> 0" using ss(3) by auto
  have ns: "num_sub (free_bytes st) (largest_free_block st) = free_bytes st - largest_free_block st"
    using lb ss(4) by (intro num_sub_exact) simp_all
  have g: "\<not> (0 < length ?F \<and> argLimit < length ?F)" using assms(3) by simp
  define s where "s = \<lparr> totalSize_s = totalSize st,
                       allocated_s = allocated_bytes st,
                       free_s = free_bytes st,
                       fragmentation = ?frag,
                       allocations_s = length (filter (\<lambda>a. \<not> freed a) (allocations st)),
                       freeBlocks = length ?F \<rparr>"
  have r: "getStats st argLimit = Inr s"
    unfolding getStats_def Let_def s_def
    by (simp only: g if_False l ss(1,2) ns z) (cases "free_bytes st = 0"; simp)
  have f: "fragmentation s = ?frag" by (simp add: s_def)
  have e: "\<bar>?frag - fragmentation_exact st\<bar> \<le> fragmentation_exact st / 2 ^ 51"
  proof (cases "free_bytes st = 0")
    case True then show ?thesis by (simp add: fragmentation_exact_def)
  next
    case False
    then have p: "0 < free_bytes st" using z by simp
    have "0 \<le> free_bytes st - largest_free_block st"
         "free_bytes st - largest_free_block st \<le> free_bytes st"
      using lb by simp_all
    from quotient_rounding[OF this p ss(4)] False show ?thesis
      by (simp only: fragmentation_exact_def if_False)
  qed
  show ?thesis using r f e by (intro exI[of _ s]) simp
qed

text \<open>
  The example of the specification: 100 bytes, free blocks of 10 and 20 bytes. The figure
  is the double 33.33333333333333, that is \<open>2345624805922133 / 2 ^ 46\<close>; it lies between
  33.33 and 33.34. A fresh allocator of 30 bytes, one free block, has the figure 0.
\<close>

theorem getStats_fragmentation_witness:
  "run (constructor 100) [Allocate 10 0, Allocate 50 0, Allocate 20 0, Allocate 20 0,
                          Free (Some 1), Free (Some 3)] = Some ex_fragmented
   \<and> well_formed ex_fragmented \<and> totalSize ex_fragmented \<le> max_safe
   \<and> length (filter (\<lambda>b. \<not> allocated b) (blocks ex_fragmented)) \<le> 4
   \<and> free_bytes ex_fragmented = 30 \<and> largest_free_block ex_fragmented = 20
   \<and> (\<exists>s. getStats ex_fragmented 4 = Inr s
          \<and> fragmentation s = 2345624805922133 / 70368744177664
          \<and> 33.33 \<le> fragmentation s \<and> fragmentation s < 33.34
          \<and> \<bar>fragmentation s - 100 / 3\<bar> \<le> 100 / 3 / 2 ^ 51)
   \<and> well_formed (constructor 30)
   \<and> (\<exists>s. getStats (constructor 30) 4 = Inr s \<and> fragmentation s = 0)"
proof -
  have r: "run (constructor 100) [Allocate 10 0, Allocate 50 0, Allocate 20 0, Allocate 20 0,
                                  Free (Some 1), Free (Some 3)] = Some ex_fragmented"
    by code_simp
  have w: "well_formed ex_fragmented" by (simp add: well_formed_def ex_fragmented_def)
  have t: "totalSize ex_fragmented \<le> max_safe" by (simp add: ex_fragmented_def max_safe_def)
  have n: "length (filter (\<lambda>b. \<not> allocated b) (blocks ex_fragmented)) \<le> 4"
    by (simp add: ex_fragmented_def)
  have f: "free_bytes ex_fragmented = 30" by (simp add: free_bytes_def ex_fragmented_def)
  have l: "largest_free_block ex_fragmented = 20"
    by (simp add: largest_free_block_def ex_fragmented_def)
  have x: "fragmentation_exact ex_fragmented = 100 / 3"
    by (simp add: fragmentation_exact_def f l)
  have q: "num_mul (num_div 10 30) 100 = 2345624805922133 / 70368744177664" by code_simp
  have w2: "well_formed (constructor 30)" by (simp add: well_formed_def constructor_def)
  have t2: "totalSize (constructor 30) \<le> max_safe" by (simp add: constructor_def max_safe_def)
  have n2: "length (filter (\<lambda>b. \<not> allocated b) (blocks (constructor 30))) \<le> 4"
    by (simp add: constructor_def)
  have f2: "free_bytes (constructor 30) = 30" by (simp add: free_bytes_def constructor_def)
  have l2: "largest_free_block (constructor 30) = 30"
    by (simp add: largest_free_block_def constructor_def)
  have z: "num_mul (num_div 0 30) 100 = 0" by code_simp
  from getStats_fragmentation[OF w t n] obtain s where
    s: "getStats ex_fragmented 4 = Inr s"
       "fragmentation s = 2345624805922133 / 70368744177664"
       "\<bar>fragmentation s - 100 / 3\<bar> \<le> 100 / 3 / 2 ^ 51"
    unfolding f l x by (auto simp add: q)
  have "33.33 \<le> fragmentation s" "fragmentation s < 33.34" unfolding s(2) by simp_all
  with s have a: "\<exists>s. getStats ex_fragmented 4 = Inr s
          \<and> fragmentation s = 2345624805922133 / 70368744177664
          \<and> 33.33 \<le> fragmentation s \<and> fragmentation s < 33.34
          \<and> \<bar>fragmentation s - 100 / 3\<bar> \<le> 100 / 3 / 2 ^ 51"
    by blast
  from getStats_fragmentation[OF w2 t2 n2]
  have b: "\<exists>s. getStats (constructor 30) 4 = Inr s \<and> fragmentation s = 0"
    by (auto simp add: f2 l2 z)
  show ?thesis using r w t n f l a w2 b by simp
qed

text \<open>
  C9 as the specification words it, with the exact quotient, fails on its own example:
  \<open>(30 - 20) / 30 * 100\<close> is \<open>100 / 3\<close>, which no double equals; the code returns the
  double 33.33333333333333, smaller than \<open>100 / 3\<close>.
\<close>

theorem getStats_fragmentation_counterexample:
  "well_formed ex_fragmented
   \<and> free_bytes ex_fragmented = 30 \<and> largest_free_block ex_fragmented = 20
   \<and> (\<exists>s. getStats ex_fragmented 4 = Inr s
          \<and> fragmentation s = 2345624805922133 / 70368744177664
          \<and> fragmentation s \<noteq> (30 - 20) / 30 * 100
          \<and> fragmentation s < (30 - 20) / 30 * 100)"
proof -
  have w: "well_formed ex_fragmented" by (simp add: well_formed_def ex_fragmented_def)
  have f: "free_bytes ex_fragmented = 30" by (simp add: free_bytes_def ex_fragmented_def)
  have l: "largest_free_block ex_fragmented = 20"
    by (simp add: largest_free_block_def ex_fragmented_def)
  have g: "getStats ex_fragmented 4 =
             Inr \<lparr> totalSize_s = 100, allocated_s = 70, free_s = 30,
                   fragmentation = 2345624805922133 / 70368744177664,
                   allocations_s = 2, freeBlocks = 2 \<rparr>"
    by code_simp
  show ?thesis using w f l by (simp add: g)
qed

end
